theory Spec2Isabelle
  imports Complex_Main "HOL-Library.Char_ord" "HOL-Library.List_Lexorder"
begin

section \<open>Data model of \<open>src/App.tsx\<close>\<close>

text \<open>
  Numbers are JavaScript doubles in the source; they are idealised as \<^typ>\<open>real\<close>, so
  the theorems below are about the formulas the code evaluates, not about rounding.
  \<open>Quantity\<close> and \<open>Price\<close> are taken to be numbers, as the CSV parser yields them for
  numeric cells.
  An \<open>ActivityDate\<close> is a \<open>Date\<close> object built at line 67: either a date, modelled
  by its time value (milliseconds since the epoch), or the \<open>Invalid Date\<close> object that
  \<open>new Date\<close> returns for a missing or unparsable cell, whose time value is \<open>NaN\<close>.
\<close>

datatype date = Date int | InvalidDate

definition isValid :: "date \<Rightarrow> bool" where
  "isValid d = (case d of Date n \<Rightarrow> True | InvalidDate \<Rightarrow> False)"

definition timeValue :: "date \<Rightarrow> int" where
  "timeValue d = (case d of Date n \<Rightarrow> n | InvalidDate \<Rightarrow> 0)"

text \<open>
  A cleaned trade (lines 62-71). \<open>CallPut\<close> comes from the CSV row unchanged and may be
  absent; the other fields are always set by the cleaning step.
\<close>

record trade =
  Symbol :: string
  Transaction :: string
  Type :: string
  CallPut :: "string option"
  Quantity :: real
  Price :: real
  Amount :: real
  Commission :: real
  ActivityDate :: date

text \<open>
  The object pushed on a queue at lines 156-159,
  \<open>{...trade, remainingQuantity: trade.Quantity}\<close>: a copy of the trade's fields with one
  more field.
\<close>

record openPosition = trade +
  remainingQuantity :: real

text \<open>The object pushed on \<open>closedTrades\<close> at lines 177-187 and 199-209.\<close>

record closedTrade =
  symbol :: string
  openDate :: date
  closeDate :: date
  quantity :: real
  openPrice :: real
  closePrice :: real
  pl :: real
  type :: string
  callPut :: "string option"

text \<open>Rows of the tables of the summary.\<close>

record topSymbol =
  ts_symbol :: string
  ts_count :: nat
  ts_pl :: real

record plByTypeRow =
  pt_type :: string
  pt_pl :: real

record plByMonthRow =
  pm_month :: string
  pm_pl :: real
  pm_tradeCount :: nat

text \<open>
  The summary object (lines 15-23 and 288-298). The initial object has the empty string
  for both ends of \<open>dateRange\<close> (modelled as \<open>None\<close>) and has no \<open>plByMonth\<close>
  and no \<open>closedTrades\<close> property (\<open>None\<close>).
\<close>

record dateRange =
  dr_start :: "date option"
  dr_end :: "date option"

record summary =
  totalPL :: real
  winRate :: real
  tradeCount :: nat
  avgTrade :: real
  dateRange :: dateRange
  topSymbols :: "topSymbol list"
  plByType :: "plByTypeRow list"
  plByMonth :: "plByMonthRow list option"
  closedTrades :: "closedTrade list option"

text \<open>
  The state of the component that the claims are about: the React state variables
  \<open>trades\<close>, \<open>summary\<close>, \<open>filterSymbol\<close> and \<open>timeframe\<close>, and the lines written
  by \<open>console.warn\<close>. A warning \<open>Unmatched sell for ${key}, qty: ${remainingQty}\<close> is kept as
  the pair of the key and the quantity it prints.
\<close>

record app =
  trades :: "trade list"
  summary :: summary
  filterSymbol :: string
  timeframe :: string
  console :: "(string \<times> real) list"

text \<open>
  What the code takes from its environment: the year-month string that lines 276-277
  compute from a date with the local calendar, the time value of the cutoff date that
  lines 109-124 compute from the clock for a timeframe (always a date), and the order in
  which the engine's \<open>Array.prototype.sort\<close> leaves an array when the comparator is not a
  consistent order (see \<open>sortBy\<close> below). They are parameters of the model.
\<close>

record env =
  monthKey :: "date \<Rightarrow> string"
  cutoffDate :: "string \<Rightarrow> int"
  engineOrder :: "date list \<Rightarrow> nat list"

text \<open>
  The exception of line 295: the identifier \<open>fallbackPlByType\<close> is declared and imported
  nowhere in the module, so evaluating it throws a \<open>ReferenceError\<close>. A call that throws
  is the error together with the state at the throw; a call that returns is the state.
\<close>

datatype error = ReferenceError string

type_synonym 'a result = "(error \<times> 'a) + 'a"

definition threw :: "'a result \<Rightarrow> bool" where
  "threw r = (case r of Inl x \<Rightarrow> True | Inr a \<Rightarrow> False)"

definition stateOf :: "'a result \<Rightarrow> 'a" where
  "stateOf r = (case r of Inl x \<Rightarrow> snd x | Inr a \<Rightarrow> a)"

definition initialSummary :: summary where
  "initialSummary =
     \<lparr>totalPL = 0, winRate = 0, tradeCount = 0, avgTrade = 0,
      dateRange = \<lparr>dr_start = None, dr_end = None\<rparr>,
      topSymbols = [], plByType = [], plByMonth = None, closedTrades = None\<rparr>"

section \<open>The lot matcher (lines 142-222)\<close>

text \<open>\<open>x || 0\<close> on a number: zero for a falsy number, the number otherwise.\<close>

definition orZero :: "real \<Rightarrow> real" where
  "orZero x = (if x = 0 then 0 else x)"

text \<open>Line 147: \<open>`${trade.Symbol}-${trade.CallPut || 'stock'}`\<close>.\<close>

definition callPutOrStock :: "string option \<Rightarrow> string" where
  "callPutOrStock cp =
     (case cp of None \<Rightarrow> ''stock'' | Some s \<Rightarrow> if s = [] then ''stock'' else s)"

definition tradeKey :: "'a trade_scheme \<Rightarrow> string" where
  "tradeKey t = Symbol t @ ''-'' @ callPutOrStock (CallPut t)"

text \<open>
  The two terms of a match (lines 172-175 and 194-197). The divisors are not zero where
  the loop evaluates these terms; this is proved below.
\<close>

definition closeAmount :: "trade \<Rightarrow> real \<Rightarrow> real" where
  "closeAmount t qtyToClose =
     Price t * qtyToClose - orZero (Commission t) * (qtyToClose / Quantity t)"

definition openAmountFull :: "openPosition \<Rightarrow> real \<Rightarrow> real" where
  "openAmountFull openPosition qtyToClose =
     Price openPosition * qtyToClose + orZero (Commission openPosition)"

definition openAmountPartial :: "openPosition \<Rightarrow> real \<Rightarrow> real" where
  "openAmountPartial openPosition qtyToClose =
     Price openPosition * qtyToClose
       + orZero (Commission openPosition) * (qtyToClose / Quantity openPosition)"

definition mkClosed :: "trade \<Rightarrow> openPosition \<Rightarrow> real \<Rightarrow> real \<Rightarrow> closedTrade" where
  "mkClosed t openPosition qtyToClose p =
     \<lparr>symbol = Symbol t, openDate = ActivityDate openPosition,
      closeDate = ActivityDate t, quantity = qtyToClose,
      openPrice = Price openPosition, closePrice = Price t,
      pl = p, type = Type t, callPut = CallPut t\<rparr>"

text \<open>
  One pass through the body of the \<open>while\<close> loop (lines 167-213), for a non-empty
  queue: the closed trade that is pushed, the new \<open>remainingQty\<close> and the new queue.
\<close>

definition matchStep ::
  "trade \<Rightarrow> real \<Rightarrow> openPosition \<Rightarrow> openPosition list
     \<Rightarrow> closedTrade \<times> real \<times> openPosition list" where
  "matchStep t remainingQty openPosition rest =
     (if remainingQuantity openPosition \<le> remainingQty then
        let qtyToClose = remainingQuantity openPosition
        in (mkClosed t openPosition qtyToClose
              (closeAmount t qtyToClose - openAmountFull openPosition qtyToClose),
            remainingQty - qtyToClose, rest)
      else
        let qtyToClose = remainingQty
        in (mkClosed t openPosition qtyToClose
              (closeAmount t qtyToClose - openAmountPartial openPosition qtyToClose),
            0,
            openPosition\<lparr>remainingQuantity := remainingQuantity openPosition - qtyToClose\<rparr>
              # rest))"

text \<open>
  The \<open>while\<close> loop of line 166. It returns the final \<open>remainingQty\<close>, the queue and
  the closed trades pushed, in the order of the pushes.
\<close>

function matchSell ::
  "trade \<Rightarrow> real \<Rightarrow> openPosition list \<Rightarrow> closedTrade list
     \<Rightarrow> real \<times> openPosition list \<times> closedTrade list" where
  "matchSell t remainingQty queue emitted =
     (if remainingQty > 0 \<and> queue \<noteq> [] then
        (case matchStep t remainingQty (hd queue) (tl queue) of
           (c, remainingQty', queue') \<Rightarrow> matchSell t remainingQty' queue' (emitted @ [c]))
      else (remainingQty, queue, emitted))"
  by pat_completeness auto
termination
  by (relation "measure (\<lambda>(t, remainingQty, queue, emitted).
                   if remainingQty > 0 then Suc (length queue) else 0)")
     (auto simp: matchStep_def Let_def split: if_splits)

declare matchSell.simps [simp del]

text \<open>
  The state of the pass over the sorted trades: \<open>positions\<close>, the local array
  \<open>closedTrades\<close> (here \<open>emitted\<close>) and the warnings written so far.
\<close>

record matcher =
  positions :: "string \<rightharpoonup> openPosition list"
  emitted :: "closedTrade list"
  warned :: "(string \<times> real) list"

definition newPosition :: "trade \<Rightarrow> openPosition" where
  "newPosition t = trade.extend t (openPosition.fields (Quantity t))"

text \<open>The body of the \<open>forEach\<close> (lines 146-222).\<close>

definition processTrade :: "matcher \<Rightarrow> trade \<Rightarrow> matcher" where
  "processTrade m t =
     (let key = tradeKey t;
          queue = (case positions m key of None \<Rightarrow> [] | Some q \<Rightarrow> q)
      in if Transaction t = ''Buy'' then
           m\<lparr>positions := (positions m)(key \<mapsto> queue @ [newPosition t])\<rparr>
         else if Transaction t = ''Sell'' then
           (case matchSell t (Quantity t) queue (emitted m) of
              (remainingQty, queue', emitted') \<Rightarrow>
                m\<lparr>positions := (positions m)(key \<mapsto> queue'),
                  emitted := emitted',
                  warned := (if remainingQty > 0 then warned m @ [(key, remainingQty)]
                             else warned m)\<rparr>)
         else m\<lparr>positions := (positions m)(key \<mapsto> queue)\<rparr>)"

definition emptyMatcher :: matcher where
  "emptyMatcher = \<lparr>positions = Map.empty, emitted = [], warned = []\<rparr>"

definition matchTrades :: "trade list \<Rightarrow> matcher" where
  "matchTrades sortedTrades = foldl processTrade emptyMatcher sortedTrades"

text \<open>
  \<open>_.sortBy\<close> with a date as the criterion. It returns a new array, sorted by the
  engine's \<open>Array.prototype.sort\<close> with a comparator that compares two elements by their
  time values with \<open>>\<close> and \<open><\<close> and, when neither holds, by their positions in the
  input. When every date is valid this is a stable sort by the time value. An
  \<open>Invalid Date\<close> compares neither greater nor less than any date, so with one in the
  array the comparator need not be a consistent order, and ECMAScript leaves the result
  implementation-defined: the model takes the order from the environment, as the list
  of input positions computed from the criteria (the comparator sees nothing else).
\<close>

definition sortBy :: "env \<Rightarrow> ('a \<Rightarrow> date) \<Rightarrow> 'a list \<Rightarrow> 'a list" where
  "sortBy e f xs =
     (if list_all (\<lambda>x. isValid (f x)) xs then sort_key (\<lambda>x. timeValue (f x)) xs
      else map (\<lambda>i. xs ! i) (filter (\<lambda>i. i < length xs) (engineOrder e (map f xs))))"

text \<open>Line 139: \<open>_.sortBy(tradeData, 'ActivityDate')\<close>.\<close>

definition sortByActivityDate :: "env \<Rightarrow> trade list \<Rightarrow> trade list" where
  "sortByActivityDate e tradeData = sortBy e ActivityDate tradeData"

section \<open>The aggregator (lines 224-298)\<close>

text \<open>
  \<open>_.groupBy\<close> builds an object whose value at a key is the array of the elements with
  that key, in input order. It is modelled as an association list with the keys in the
  order of their first occurrence; a group is created by the first element that has its
  key. (A JavaScript object lists keys that are array indices first; no statement below
  depends on the order of the groups.)
\<close>

fun addToGroup :: "'k \<Rightarrow> 'a \<Rightarrow> ('k \<times> 'a list) list \<Rightarrow> ('k \<times> 'a list) list" where
  "addToGroup k x [] = [(k, [x])]"
| "addToGroup k x ((k', g) # rest) =
     (if k' = k then (k', g @ [x]) # rest else (k', g) # addToGroup k x rest)"

definition groupBy :: "('a \<Rightarrow> 'k) \<Rightarrow> 'a list \<Rightarrow> ('k \<times> 'a list) list" where
  "groupBy f xs = foldl (\<lambda>acc x. addToGroup (f x) x acc) [] xs"

definition sumBy :: "('a \<Rightarrow> real) \<Rightarrow> 'a list \<Rightarrow> real" where
  "sumBy f xs = sum_list (map f xs)"

text \<open>Lines 228-231.\<close>

definition winRateOf :: "closedTrade list \<Rightarrow> real" where
  "winRateOf cts =
     (let winningTrades = filter (\<lambda>c. pl c > 0) cts
      in if length cts > 0
         then (real (length winningTrades) / real (length cts)) * 100
         else 0)"

text \<open>
  Lines 243-262. \<open>_.countBy\<close> gives the size of each group; the \<open>find\<close> of line 254
  returns the first row of \<open>plBySymbol\<close> with the symbol; the \<open>sort\<close> is stable.
\<close>

definition plBySymbolOf :: "closedTrade list \<Rightarrow> (string \<times> real) list" where
  "plBySymbolOf cts = map (\<lambda>(s, g). (s, sumBy pl g)) (groupBy symbol cts)"

definition topSymbolsOf :: "closedTrade list \<Rightarrow> topSymbol list" where
  "topSymbolsOf cts =
     (let symbolCounts = map (\<lambda>(s, g). (s, length g)) (groupBy symbol cts);
          plBySymbol = plBySymbolOf cts;
          rows = map (\<lambda>(s, n).
                   \<lparr>ts_symbol = s, ts_count = n,
                    ts_pl = (case find (\<lambda>r. fst r = s) plBySymbol of
                               Some r \<Rightarrow> snd r | None \<Rightarrow> 0)\<rparr>) symbolCounts
      in take 5 (sort_key (\<lambda>r. - int (ts_count r)) rows))"

text \<open>Lines 265-271.\<close>

definition plByTypeOf :: "closedTrade list \<Rightarrow> plByTypeRow list" where
  "plByTypeOf cts =
     map (\<lambda>(ty, g). \<lparr>pt_type = ty, pt_pl = sumBy pl g\<rparr>) (groupBy type cts)"

text \<open>Lines 274-285.\<close>

definition plByMonthOf :: "env \<Rightarrow> closedTrade list \<Rightarrow> plByMonthRow list" where
  "plByMonthOf e cts =
     sort_key pm_month
       (map (\<lambda>(month, g). \<lparr>pm_month = month, pm_pl = sumBy pl g, pm_tradeCount = length g\<rparr>)
          (groupBy (\<lambda>c. monthKey e (closeDate c)) cts))"

text \<open>
  \<open>calculateSummary\<close> (lines 135-299). It returns at once on an empty array; otherwise
  it sorts, matches (writing the warnings), aggregates and builds the object of lines
  288-298 for \<open>setSummary\<close>. Line 235 reads \<open>sortedTrades[0]\<close> and line 236 the last
  element, of an array that is not empty there. The divisions of lines 230 and 292 are
  guarded by the source. At line 295 an empty \<open>plByType\<close> makes the code evaluate
  \<open>fallbackPlByType\<close>, which throws before \<open>setSummary\<close> is called: the summary is not
  replaced, the warnings are already written.
\<close>

definition calculateSummary :: "env \<Rightarrow> trade list \<Rightarrow> app \<Rightarrow> app result" where
  "calculateSummary e tradeData a =
     (if tradeData = [] then Inr a
      else
        let sortedTrades = sortByActivityDate e tradeData;
            m = matchTrades sortedTrades;
            cts = emitted m;
            total = sumBy pl cts;
            byType = plByTypeOf cts
        in if byType \<noteq> [] then
             Inr (a\<lparr>summary :=
                    \<lparr>totalPL = total,
                     winRate = winRateOf cts,
                     tradeCount = length cts,
                     avgTrade = (if length cts > 0 then total / real (length cts) else 0),
                     dateRange = \<lparr>dr_start = Some (ActivityDate (hd sortedTrades)),
                                  dr_end = Some (ActivityDate (last sortedTrades))\<rparr>,
                     topSymbols = topSymbolsOf cts,
                     plByType = byType,
                     plByMonth = Some (plByMonthOf e cts),
                     closedTrades = Some cts\<rparr>,
                  console := console a @ warned m\<rparr>)
           else
             Inl (ReferenceError ''fallbackPlByType'', a\<lparr>console := console a @ warned m\<rparr>))"

section \<open>The filter stage (lines 96-133)\<close>

text \<open>\<open>toLowerCase\<close> on the ASCII letters, and \<open>String.prototype.includes\<close>.\<close>

definition toLowerChar :: "char \<Rightarrow> char" where
  "toLowerChar c =
     (if CHR ''A'' \<le> c \<and> c \<le> CHR ''Z'' then char_of (of_char c + (32::nat)) else c)"

definition toLowerCase :: "string \<Rightarrow> string" where
  "toLowerCase s = map toLowerChar s"

fun startsWith :: "string \<Rightarrow> string \<Rightarrow> bool" where
  "startsWith s [] = True"
| "startsWith [] (c # cs) = False"
| "startsWith (d # ds) (c # cs) = (d = c \<and> startsWith ds cs)"

fun includesStr :: "string \<Rightarrow> string \<Rightarrow> bool" where
  "includesStr [] sub = (sub = [])"
| "includesStr (d # ds) sub = (startsWith (d # ds) sub \<or> includesStr ds sub)"

text \<open>
  Line 127, \<open>trade.ActivityDate >= cutoffDate\<close>: the comparison of the time values, false
  for an \<open>Invalid Date\<close>.
\<close>

definition dateAtLeast :: "date \<Rightarrow> int \<Rightarrow> bool" where
  "dateAtLeast d cutoff = (case d of Date n \<Rightarrow> cutoff \<le> n | InvalidDate \<Rightarrow> False)"

text \<open>
  The array \<open>filteredTrades\<close> of lines 98-129. An empty \<open>filterSymbol\<close> is falsy and
  applies no filter.
\<close>

definition filteredTradesOf :: "env \<Rightarrow> app \<Rightarrow> trade list" where
  "filteredTradesOf e a =
     (let bySymbol =
            (if filterSymbol a \<noteq> [] then
               filter (\<lambda>t. includesStr (toLowerCase (Symbol t)) (toLowerCase (filterSymbol a)))
                 (trades a)
             else trades a)
      in if timeframe a \<noteq> ''all'' then
           filter (\<lambda>t. dateAtLeast (ActivityDate t) (cutoffDate e (timeframe a))) bySymbol
         else bySymbol)"

text \<open>
  The effect that runs when \<open>trades\<close>, \<open>filterSymbol\<close> or \<open>timeframe\<close> changes.
  Nothing catches what \<open>calculateSummary\<close> throws here.
\<close>

definition useEffect :: "env \<Rightarrow> app \<Rightarrow> app result" where
  "useEffect e a =
     (if length (trades a) > 0 then calculateSummary e (filteredTradesOf e a) a else Inr a)"

section \<open>Call and put performance (lines 526-531 and 549-557)\<close>

text \<open>
  A division of two numbers never raises in JavaScript; with a zero divisor its value is
  \<open>NaN\<close> or an infinity, which is not a real number: \<open>None\<close>.
\<close>

definition jsDivide :: "real \<Rightarrow> real \<Rightarrow> real option" where
  "jsDivide x y = (if y = 0 then None else Some (x / y))"

record callPutRow =
  cp_type :: string
  cp_pl :: real
  cp_count :: nat
  cp_winRate :: "real option"

definition optionsTradesOf :: "summary \<Rightarrow> closedTrade list" where
  "optionsTradesOf s =
     filter (\<lambda>c. callPut c = Some ''CALL'' \<or> callPut c = Some ''PUT'')
       (case closedTrades s of None \<Rightarrow> [] | Some cts \<Rightarrow> cts)"

definition callPutPerformance :: "summary \<Rightarrow> callPutRow list" where
  "callPutPerformance s =
     map (\<lambda>(ty, g).
            \<lparr>cp_type = ty, cp_pl = sumBy pl g, cp_count = length g,
             cp_winRate =
               map_option (\<lambda>r. r * 100)
                 (jsDivide (real (length (filter (\<lambda>c. pl c > 0) g))) (real (length g)))\<rparr>)
       (groupBy (\<lambda>c. case callPut c of Some s \<Rightarrow> s | None \<Rightarrow> ''undefined'')
          (optionsTradesOf s))"

section \<open>The matcher on a store of objects\<close>

text \<open>
  The matcher once more, with the objects it reads and writes in a store, to state what
  it mutates. A reference is an index into the store; \<open>tradeData\<close> is an array of
  references to trade objects. The spread of lines 156-159 allocates a new object at the
  end of the store; \<open>openPosition\<close> at line 167 is a reference to the first object of
  the queue, and line 211 writes through it. \<open>_.sortBy\<close> returns a new array of the
  same references. A reference outside the store does not occur in JavaScript; the model
  leaves the state unchanged there.
\<close>

type_synonym addr = nat

datatype jsObject = TradeObj trade | PositionObj openPosition

text \<open>
  Reading a reference, and the trade fields of an object.
\<close>

definition lookup :: "jsObject list \<Rightarrow> addr \<Rightarrow> jsObject option" where
  "lookup h a = (if a < length h then Some (h ! a) else None)"

definition tradeOf :: "jsObject \<Rightarrow> trade" where
  "tradeOf obj = (case obj of TradeObj t \<Rightarrow> t | PositionObj p \<Rightarrow> trade.truncate p)"

text \<open>
  The state of the pass: the store, the queues of references, the closed trades and the
  warnings.
\<close>

record heapMatcher =
  store :: "jsObject list"
  positionRefs :: "string \<rightharpoonup> addr list"
  emittedH :: "closedTrade list"
  warnedH :: "(string \<times> real) list"

text \<open>
  The loop of line 166 on a queue of references. The queue holds references to objects
  pushed at line 156 only; on any other object the model stops.
\<close>

function matchSellH ::
  "trade \<Rightarrow> real \<Rightarrow> addr list \<Rightarrow> jsObject list \<Rightarrow> closedTrade list
     \<Rightarrow> real \<times> addr list \<times> jsObject list \<times> closedTrade list" where
  "matchSellH t remainingQty queue h em =
     (if remainingQty > 0 \<and> queue \<noteq> [] then
        (case lookup h (hd queue) of
           Some (PositionObj openPosition) \<Rightarrow>
             if remainingQuantity openPosition \<le> remainingQty then
               let qtyToClose = remainingQuantity openPosition
               in matchSellH t (remainingQty - qtyToClose) (tl queue) h
                    (em @ [mkClosed t openPosition qtyToClose
                             (closeAmount t qtyToClose - openAmountFull openPosition qtyToClose)])
             else
               let qtyToClose = remainingQty
               in matchSellH t 0 queue
                    (h[hd queue := PositionObj
                         (openPosition\<lparr>remainingQuantity :=
                            remainingQuantity openPosition - qtyToClose\<rparr>)])
                    (em @ [mkClosed t openPosition qtyToClose
                             (closeAmount t qtyToClose
                                - openAmountPartial openPosition qtyToClose)])
         | _ \<Rightarrow> (remainingQty, queue, h, em))
      else (remainingQty, queue, h, em))"
  by pat_completeness auto
termination
  by (relation "measure (\<lambda>(t, remainingQty, queue, h, em).
                   if remainingQty > 0 then Suc (length queue) else 0)")
     (auto simp: Let_def)

declare matchSellH.simps [simp del]

text \<open>
  The body of the \<open>forEach\<close> for the trade object at reference \<open>a\<close>.
\<close>

definition processTradeH :: "heapMatcher \<Rightarrow> addr \<Rightarrow> heapMatcher" where
  "processTradeH m a =
     (case lookup (store m) a of
        None \<Rightarrow> m
      | Some obj \<Rightarrow>
          let t = tradeOf obj;
              key = tradeKey t;
              queue = (case positionRefs m key of None \<Rightarrow> [] | Some q \<Rightarrow> q)
          in if Transaction t = ''Buy'' then
               m\<lparr>store := store m @ [PositionObj (newPosition t)],
                 positionRefs := (positionRefs m)(key \<mapsto> queue @ [length (store m)])\<rparr>
             else if Transaction t = ''Sell'' then
               (case matchSellH t (Quantity t) queue (store m) (emittedH m) of
                  (remainingQty, queue', h', em') \<Rightarrow>
                    m\<lparr>store := h',
                      positionRefs := (positionRefs m)(key \<mapsto> queue'),
                      emittedH := em',
                      warnedH := (if remainingQty > 0
                                  then warnedH m @ [(key, remainingQty)]
                                  else warnedH m)\<rparr>)
             else m\<lparr>positionRefs := (positionRefs m)(key \<mapsto> queue)\<rparr>)"

definition sortRefs :: "env \<Rightarrow> jsObject list \<Rightarrow> addr list \<Rightarrow> addr list" where
  "sortRefs e h tradeData =
     sortBy e
       (\<lambda>a. case lookup h a of Some obj \<Rightarrow> ActivityDate (tradeOf obj) | None \<Rightarrow> InvalidDate)
       tradeData"

definition matchTradesH :: "env \<Rightarrow> jsObject list \<Rightarrow> addr list \<Rightarrow> heapMatcher" where
  "matchTradesH e h tradeData =
     foldl processTradeH
       \<lparr>store = h, positionRefs = Map.empty, emittedH = [], warnedH = []\<rparr>
       (sortRefs e h tradeData)"

section \<open>Notions used in the statements\<close>

text \<open>The queue of a key, the empty queue when \<open>positions\<close> has no entry for it.\<close>

definition queueOf :: "matcher \<Rightarrow> string \<Rightarrow> openPosition list" where
  "queueOf m key = (case positions m key of None \<Rightarrow> [] | Some q \<Rightarrow> q)"

text \<open>
  The key of the Sell that produced a closed trade: a closed trade copies \<open>Symbol\<close> and
  \<open>CallPut\<close> of the Sell.
\<close>

definition closedKey :: "closedTrade \<Rightarrow> string" where
  "closedKey c = symbol c @ ''-'' @ callPutOrStock (callPut c)"

text \<open>
  Two states of the matcher agree on a key: the same queue for it, and the same closed
  trades for it in the same order.
\<close>

definition keySim :: "string \<Rightarrow> matcher \<Rightarrow> matcher \<Rightarrow> bool" where
  "keySim k m m' \<longleftrightarrow>
     queueOf m k = queueOf m' k \<and> filter (\<lambda>c. closedKey c = k) (emitted m) = emitted m'"

text \<open>
  For the store: the part of the store that existed before the pass is unchanged and no
  queue refers into it; the lot that a reference of a queue points to; the queue of
  references of a key; and the relation between a state on the store and a state of the
  matcher on values (same closed trades and warnings, the queues of references point to
  the lots of the queues of values, no reference occurs twice).
\<close>

definition frameInv :: "jsObject list \<Rightarrow> heapMatcher \<Rightarrow> bool" where
  "frameInv h0 m \<longleftrightarrow>
     take (length h0) (store m) = h0 \<and>
     (\<forall>key q. positionRefs m key = Some q \<longrightarrow> (\<forall>a \<in> set q. length h0 \<le> a))"

definition lotAt :: "jsObject list \<Rightarrow> addr \<Rightarrow> openPosition option" where
  "lotAt h a = (case lookup h a of Some (PositionObj p) \<Rightarrow> Some p | _ \<Rightarrow> None)"

definition refsOf :: "heapMatcher \<Rightarrow> string \<Rightarrow> addr list" where
  "refsOf m key = (case positionRefs m key of None \<Rightarrow> [] | Some q \<Rightarrow> q)"

definition refines :: "heapMatcher \<Rightarrow> matcher \<Rightarrow> bool" where
  "refines mH m \<longleftrightarrow>
     emittedH mH = emitted m \<and> warnedH mH = warned m \<and>
     (\<forall>k. map (lotAt (store mH)) (refsOf mH k) = map Some (queueOf m k)) \<and>
     (\<forall>k. distinct (refsOf mH k)) \<and>
     (\<forall>k k'. k \<noteq> k' \<longrightarrow> set (refsOf mH k) \<inter> set (refsOf mH k') = {})"

text \<open>
  Values for the examples: a trade of type \<open>Margin\<close> with no \<open>CallPut\<close>, an
  environment, the state of the component before any upload, and a closed trade with a
  given class and profit.
\<close>

definition mkTrade :: "string \<Rightarrow> string \<Rightarrow> real \<Rightarrow> real \<Rightarrow> real \<Rightarrow> int \<Rightarrow> trade" where
  "mkTrade s tx q p c d =
     \<lparr>Symbol = s, Transaction = tx, Type = ''Margin'', CallPut = None, Quantity = q,
      Price = p, Amount = p * q, Commission = c, ActivityDate = Date d\<rparr>"

definition sampleEnv :: env where
  "sampleEnv =
     \<lparr>monthKey = (\<lambda>d. ''2024-01''),
      cutoffDate = (\<lambda>tf. 5),
      engineOrder = (\<lambda>ds. [0..<length ds])\<rparr>"

definition initialApp :: app where
  "initialApp =
     \<lparr>trades = [], summary = initialSummary, filterSymbol = [], timeframe = ''all'',
      console = []\<rparr>"

definition mkClosedTrade :: "string option \<Rightarrow> real \<Rightarrow> closedTrade" where
  "mkClosedTrade cp p =
     \<lparr>symbol = ''AAPL230101C150'', openDate = Date 1, closeDate = Date 2, quantity = 1,
      openPrice = 1, closePrice = 1 + p, pl = p, type = ''Option'', callPut = cp\<rparr>"

text \<open>
  A lot of 10 bought at 100 with commission 2, of which 5 are left; and the state of the
  component with a Buy of 5 on day 1, a Buy of 10 on day 6 and a Sell of 10 on day 9
  uploaded and the timeframe \<open>week\<close> chosen (the cutoff of \<open>sampleEnv\<close> is day 5, so the
  filter keeps the second Buy and the Sell, which close a trade).
\<close>

definition halfLot :: openPosition where
  "halfLot = (newPosition (mkTrade ''AAPL'' ''Buy'' 10 100 2 1))\<lparr>remainingQuantity := 5\<rparr>"

definition weekApp :: app where
  "weekApp = initialApp\<lparr>trades := [mkTrade ''AAPL'' ''Buy'' 5 90 1 1,
                                    mkTrade ''AAPL'' ''Buy'' 10 100 1 6,
                                    mkTrade ''AAPL'' ''Sell'' 10 110 1 9],
                        timeframe := ''week''\<rparr>"

text \<open>
  The state after a Buy on day 1 and a Sell on day 2 have been uploaded and
  \<open>calculateSummary\<close> has run on them.
\<close>

definition uploadedApp :: app where
  "uploadedApp =
     stateOf (calculateSummary sampleEnv
       [mkTrade ''AAPL'' ''Buy'' 10 100 1 1, mkTrade ''AAPL'' ''Sell'' 10 110 1 2]
       (initialApp\<lparr>trades := [mkTrade ''AAPL'' ''Buy'' 10 100 1 1,
                                mkTrade ''AAPL'' ''Sell'' 10 110 1 2]\<rparr>))"

text \<open>
  Two states of the matcher that agree on every queue, on the closed trades and on the
  warnings.
\<close>

definition skipSim :: "matcher \<Rightarrow> matcher \<Rightarrow> bool" where
  "skipSim m m' \<longleftrightarrow>
     (\<forall>k. queueOf m k = queueOf m' k) \<and> emitted m = emitted m' \<and> warned m = warned m'"

text \<open>
  A Sell on day 3 and a Buy on day 2, with an \<open>Unknown\<close> row on day 1 and a
  \<open>Dividend\<close> row on day 5.
\<close>

definition mixedTrades :: "trade list" where
  "mixedTrades =
     [mkTrade ''AAPL'' ''Sell'' 10 110 1 3, mkTrade ''AAPL'' ''Unknown'' 1 0 0 1,
      mkTrade ''AAPL'' ''Dividend'' 1 0 0 5, mkTrade ''AAPL'' ''Buy'' 10 100 1 2]"

text \<open>
  A store with a Sell of 4 (day 2) and a Buy of 10 (day 1).
\<close>

definition sampleStore :: "jsObject list" where
  "sampleStore =
     [TradeObj (mkTrade ''AAPL'' ''Sell'' 4 110 1 2), TradeObj (mkTrade ''AAPL'' ''Buy'' 10 100 2 1)]"

section \<open>The loop of one Sell\<close>

lemma matchSell_Nil: "matchSell t r [] em = (r, [], em)"
  by (simp add: matchSell.simps)

lemma matchSell_done: "r \<le> 0 \<Longrightarrow> matchSell t r q em = (r, q, em)"
  by (simp add: matchSell.simps)

lemma matchSell_Cons:
  "0 < r \<Longrightarrow> matchSell t r (p # q) em =
     (case matchStep t r p q of (c, r', q') \<Rightarrow> matchSell t r' q' (em @ [c]))"
  by (subst matchSell.simps) simp

lemma matchSell_acc:
  "matchSell t r q (em @ em2) =
     (case matchSell t r q em2 of (r', q', new) \<Rightarrow> (r', q', em @ new))"
proof (induction t r q em2 rule: matchSell.induct)
  case (1 t r q em2)
  show ?case
  proof (cases "0 < r \<and> q \<noteq> []")
    case True
    obtain c r' q' where st: "matchStep t r (hd q) (tl q) = (c, r', q')"
      by (cases "matchStep t r (hd q) (tl q)") auto
    from "1.IH" [OF True st [symmetric] refl] True st show ?thesis
      by (subst (1 2) matchSell.simps) simp
  next
    case False
    then show ?thesis by (subst (1 2) matchSell.simps) auto
  qed
qed

lemma matchStep_key: "matchStep t r p q = (c, r', q') \<Longrightarrow> closedKey c = tradeKey t"
  by (auto simp: matchStep_def Let_def mkClosed_def closedKey_def tradeKey_def split: if_splits)

lemma matchSell_keys:
  "matchSell t r q em = (r', q', em') \<Longrightarrow>
     \<exists>new. em' = em @ new \<and> (\<forall>c \<in> set new. closedKey c = tradeKey t)"
proof (induction t r q em arbitrary: r' q' em' rule: matchSell.induct)
  case (1 t r q em)
  show ?case
  proof (cases "0 < r \<and> q \<noteq> []")
    case True
    obtain c r1 q1 where st: "matchStep t r (hd q) (tl q) = (c, r1, q1)"
      by (cases "matchStep t r (hd q) (tl q)") auto
    from "1.prems" True st have "matchSell t r1 q1 (em @ [c]) = (r', q', em')"
      by (subst (asm) matchSell.simps) simp
    from "1.IH" [OF True st [symmetric] refl this]
    obtain new where "em' = (em @ [c]) @ new" "\<forall>c \<in> set new. closedKey c = tradeKey t"
      by blast
    with matchStep_key [OF st] show ?thesis
      by (intro exI [of _ "c # new"]) simp
  next
    case False
    with "1.prems" show ?thesis by (subst (asm) matchSell.simps) auto
  qed
qed

lemma matchSell_split:
  "matchSell t r q em =
     (fst (matchSell t r q []), fst (snd (matchSell t r q [])),
      em @ snd (snd (matchSell t r q [])))"
  using matchSell_acc [of t r q em "[]"] by (simp add: case_prod_beta)

lemma matchSell_new_keys:
  "c \<in> set (snd (snd (matchSell t r q []))) \<Longrightarrow> closedKey c = tradeKey t"
  using matchSell_keys [of t r q "[]"] by (cases "matchSell t r q []") auto

lemma filter_none: "(\<And>x. x \<in> set xs \<Longrightarrow> \<not> P x) \<Longrightarrow> filter P xs = []"
  by (induction xs) auto

lemma filter_all: "(\<And>x. x \<in> set xs \<Longrightarrow> P x) \<Longrightarrow> filter P xs = xs"
  by (induction xs) auto

lemma keySim_same:
  assumes "keySim k m m'" and "tradeKey t = k"
  shows "keySim k (processTrade m t) (processTrade m' t)"
proof -
  from assms have q: "queueOf m (tradeKey t) = queueOf m' (tradeKey t)"
    and e: "filter (\<lambda>c. closedKey c = tradeKey t) (emitted m) = emitted m'"
    by (simp_all add: keySim_def)
  let ?new = "snd (snd (matchSell t (Quantity t) (queueOf m' (tradeKey t)) []))"
  have n: "filter (\<lambda>c. closedKey c = tradeKey t) ?new = ?new"
    by (rule filter_all) (rule matchSell_new_keys)
  show ?thesis
    unfolding keySim_def processTrade_def Let_def assms(2) [symmetric]
    using q e n
    by (simp add: queueOf_def matchSell_split [of _ _ _ "emitted m"]
        matchSell_split [of _ _ _ "emitted m'"])
qed

lemma keySim_other:
  assumes "keySim k m m'" and "tradeKey t \<noteq> k"
  shows "keySim k (processTrade m t) m'"
proof -
  let ?new = "snd (snd (matchSell t (Quantity t) (queueOf m (tradeKey t)) []))"
  have n: "filter (\<lambda>c. closedKey c = k) ?new = []"
    using assms(2) by (intro filter_none) (auto dest: matchSell_new_keys)
  show ?thesis
    using assms n unfolding keySim_def processTrade_def Let_def
    by (simp add: queueOf_def matchSell_split [of _ _ _ "emitted m"])
qed

lemma keySim_foldl:
  "keySim k m m' \<Longrightarrow>
     keySim k (foldl processTrade m ts) (foldl processTrade m' (filter (\<lambda>t. tradeKey t = k) ts))"
proof (induction ts arbitrary: m m')
  case Nil
  then show ?case by simp
next
  case (Cons t ts)
  then show ?case
    by (cases "tradeKey t = k") (auto intro: Cons.IH keySim_same keySim_other)
qed

lemma matchTrades_per_key:
  "filter (\<lambda>c. closedKey c = k) (emitted (matchTrades ts)) =
     emitted (matchTrades (filter (\<lambda>t. tradeKey t = k) ts))"
proof -
  have "keySim k emptyMatcher emptyMatcher"
    by (simp add: keySim_def emptyMatcher_def)
  from keySim_foldl [OF this, of ts] show ?thesis
    by (simp add: keySim_def matchTrades_def)
qed

lemma matchTrades_per_key_queue:
  "queueOf (matchTrades ts) k = queueOf (matchTrades (filter (\<lambda>t. tradeKey t = k) ts)) k"
proof -
  have "keySim k emptyMatcher emptyMatcher"
    by (simp add: keySim_def emptyMatcher_def)
  from keySim_foldl [OF this, of ts] show ?thesis
    by (simp add: keySim_def matchTrades_def)
qed

lemma newPosition_simps [simp]:
  "remainingQuantity (newPosition t) = Quantity t"
  "Quantity (newPosition t) = Quantity t"
  "Price (newPosition t) = Price t"
  "Commission (newPosition t) = Commission t"
  "ActivityDate (newPosition t) = ActivityDate t"
  "Symbol (newPosition t) = Symbol t"
  "CallPut (newPosition t) = CallPut t"
  "Transaction (newPosition t) = Transaction t"
  "Type (newPosition t) = Type t"
  "Amount (newPosition t) = Amount t"
  by (simp_all add: newPosition_def trade.extend_def openPosition.fields_def)

text \<open>
  C1. Whenever the trades of one key, in sorted order, are a Buy of 10 at 10, a Buy of 10
  at 12 and a Sell of 15 at 15, the closed trades of that key are exactly two, in this
  order: the first closes the first Buy fully (quantity 10), the second closes 5 of the
  second Buy, whose lot stays in the queue with 5 remaining. Trades of other keys may be
  interleaved anywhere.
\<close>

theorem C1_fifo_order:
  assumes key: "filter (\<lambda>t. tradeKey t = k) (sortByActivityDate e tradeData) = [b1, b2, s1]"
    and b1: "Transaction b1 = ''Buy''" "Quantity b1 = 10" "Price b1 = 10"
    and b2: "Transaction b2 = ''Buy''" "Quantity b2 = 10" "Price b2 = 12"
    and s1: "Transaction s1 = ''Sell''" "Quantity s1 = 15" "Price s1 = 15"
  shows "\<exists>c1 c2.
           filter (\<lambda>c. closedKey c = k) (emitted (matchTrades (sortByActivityDate e tradeData)))
             = [c1, c2]
         \<and> quantity c1 = 10 \<and> openPrice c1 = 10 \<and> openDate c1 = ActivityDate b1
         \<and> closePrice c1 = 15 \<and> closeDate c1 = ActivityDate s1
         \<and> quantity c2 = 5 \<and> openPrice c2 = 12 \<and> openDate c2 = ActivityDate b2
         \<and> closePrice c2 = 15 \<and> closeDate c2 = ActivityDate s1
         \<and> queueOf (matchTrades (sortByActivityDate e tradeData)) k
             = [(newPosition b2)\<lparr>remainingQuantity := 5\<rparr>]"
proof -
  have "b1 \<in> set (filter (\<lambda>t. tradeKey t = k) (sortByActivityDate e tradeData))"
    "b2 \<in> set (filter (\<lambda>t. tradeKey t = k) (sortByActivityDate e tradeData))"
    "s1 \<in> set (filter (\<lambda>t. tradeKey t = k) (sortByActivityDate e tradeData))"
    unfolding key by simp_all
  then have k: "tradeKey b1 = k" "tradeKey b2 = k" "tradeKey s1 = k"
    by simp_all
  have m1: "matchSell s1 15 [newPosition b1, newPosition b2] [] =
          (0, [(newPosition b2)\<lparr>remainingQuantity := 5\<rparr>],
           [mkClosed s1 (newPosition b1) 10
              (closeAmount s1 10 - openAmountFull (newPosition b1) 10),
            mkClosed s1 (newPosition b2) 5
              (closeAmount s1 5 - openAmountPartial (newPosition b2) 5)])"
    by (simp add: matchSell_Cons matchStep_def b1 b2 matchSell_done)
  have run: "matchTrades [b1, b2, s1] =
      \<lparr>positions = [k \<mapsto> [(newPosition b2)\<lparr>remainingQuantity := 5\<rparr>]],
       emitted = [mkClosed s1 (newPosition b1) 10
              (closeAmount s1 10 - openAmountFull (newPosition b1) 10),
            mkClosed s1 (newPosition b2) 5
              (closeAmount s1 5 - openAmountPartial (newPosition b2) 5)],
       warned = []\<rparr>"
    by (simp add: matchTrades_def emptyMatcher_def processTrade_def k b1 b2 s1 m1)
  show ?thesis
    unfolding matchTrades_per_key matchTrades_per_key_queue [of _ k] key run
    by (simp add: mkClosed_def queueOf_def b1 b2 s1)
qed

theorem C1_fifo_order_witness:
  "\<exists>c1 c2.
     filter (\<lambda>c. closedKey c = ''AAPL-stock'')
       (emitted (matchTrades (sortByActivityDate sampleEnv
          [mkTrade ''AAPL'' ''Sell'' 15 15 1 3, mkTrade ''AAPL'' ''Buy'' 10 10 1 1,
           mkTrade ''MSFT'' ''Buy'' 4 7 1 2, mkTrade ''AAPL'' ''Buy'' 10 12 1 2])))
       = [c1, c2]
     \<and> quantity c1 = 10 \<and> openDate c1 = Date 1 \<and> quantity c2 = 5 \<and> openDate c2 = Date 2"
proof -
  have h: "filter (\<lambda>t. tradeKey t = ''AAPL-stock'')
       (sortByActivityDate sampleEnv
          [mkTrade ''AAPL'' ''Sell'' 15 15 1 3, mkTrade ''AAPL'' ''Buy'' 10 10 1 1,
           mkTrade ''MSFT'' ''Buy'' 4 7 1 2, mkTrade ''AAPL'' ''Buy'' 10 12 1 2])
     = [mkTrade ''AAPL'' ''Buy'' 10 10 1 1, mkTrade ''AAPL'' ''Buy'' 10 12 1 2,
        mkTrade ''AAPL'' ''Sell'' 15 15 1 3]"
    by (simp add: sortByActivityDate_def sortBy_def isValid_def timeValue_def mkTrade_def
        tradeKey_def callPutOrStock_def)
  from C1_fifo_order [OF h] show ?thesis
    by (simp add: mkTrade_def) blast
qed

section \<open>Commission terms of a match\<close>

text \<open>
  C2. In one pass through the loop body, for the Sell \<open>t\<close>, the quantity still to
  sell and the oldest lot: when the lot's remaining quantity is at most the quantity to
  sell, the lot closes fully, the quantity closed is the lot's remaining quantity and the
  opening amount carries the lot's whole commission, whatever part of the lot was closed
  before; otherwise the quantity closed is the quantity to sell and the lot's commission
  is prorated by the lot's original quantity. In both branches the Sell's commission is
  prorated by the Sell's total quantity, and the profit is the closing amount minus the
  opening amount.
\<close>

theorem C2_commission_terms:
  assumes "matchStep t remainingQty lot rest = (c, remainingQty', queue')"
  shows "if remainingQuantity lot \<le> remainingQty then
           quantity c = remainingQuantity lot
           \<and> pl c = (Price t * quantity c - Commission t * (quantity c / Quantity t))
                    - (Price lot * quantity c + Commission lot)
           \<and> remainingQty' = remainingQty - quantity c \<and> queue' = rest
         else
           quantity c = remainingQty
           \<and> pl c = (Price t * quantity c - Commission t * (quantity c / Quantity t))
                    - (Price lot * quantity c + Commission lot * (quantity c / Quantity lot))
           \<and> remainingQty' = 0
           \<and> queue' = lot\<lparr>remainingQuantity := remainingQuantity lot - quantity c\<rparr> # rest"
  using assms
  by (auto simp: matchStep_def Let_def mkClosed_def closeAmount_def openAmountFull_def
      openAmountPartial_def orZero_def split: if_splits)

text \<open>
  The two branches on a lot of 10 at 100 with commission 2 and a Sell of 5 at 110 with
  commission 1: closing the 5 that are left of the lot charges the whole commission 2,
  closing 5 of the untouched lot charges 1.
\<close>

theorem C2_commission_terms_witness:
  "pl (fst (matchStep (mkTrade ''AAPL'' ''Sell'' 5 110 1 3) 5 halfLot [])) = 549 - 502
   \<and> pl (fst (matchStep (mkTrade ''AAPL'' ''Sell'' 5 110 1 2) 5
              (newPosition (mkTrade ''AAPL'' ''Buy'' 10 100 2 1)) [])) = 549 - 501"
proof -
  obtain c r q where s: "matchStep (mkTrade ''AAPL'' ''Sell'' 5 110 1 3) 5 halfLot [] = (c, r, q)"
    by (cases "matchStep (mkTrade ''AAPL'' ''Sell'' 5 110 1 3) 5 halfLot []") auto
  obtain c' r' q' where s': "matchStep (mkTrade ''AAPL'' ''Sell'' 5 110 1 2) 5
              (newPosition (mkTrade ''AAPL'' ''Buy'' 10 100 2 1)) [] = (c', r', q')"
    by (cases "matchStep (mkTrade ''AAPL'' ''Sell'' 5 110 1 2) 5
              (newPosition (mkTrade ''AAPL'' ''Buy'' 10 100 2 1)) []") auto
  from C2_commission_terms [OF s] C2_commission_terms [OF s'] show ?thesis
    unfolding s s' by (simp add: halfLot_def mkTrade_def)
qed

section \<open>Runs on concrete inputs\<close>

lemmas run_simps =
  matchTrades_def sortByActivityDate_def sortBy_def isValid_def timeValue_def emptyMatcher_def
  processTrade_def tradeKey_def callPutOrStock_def matchSell_Cons matchSell_Nil matchSell_done
  matchStep_def mkClosed_def closeAmount_def openAmountFull_def openAmountPartial_def
  orZero_def mkTrade_def Let_def

lemma example_run:
  "matchTrades (sortByActivityDate sampleEnv
      [mkTrade ''AAPL'' ''Buy'' 10 100 1 1, mkTrade ''AAPL'' ''Sell'' 10 110 1 2]) =
   \<lparr>positions = [''AAPL-stock'' \<mapsto> []],
    emitted = [\<lparr>symbol = ''AAPL'', openDate = Date 1, closeDate = Date 2, quantity = 10,
                openPrice = 100, closePrice = 110, pl = 98, type = ''Margin'',
                callPut = None\<rparr>],
    warned = []\<rparr>"
  by (simp add: run_simps)

section \<open>What \<open>calculateSummary\<close> publishes, and when it throws\<close>

lemma threw_simps [simp]: "threw (Inl x)" "\<not> threw (Inr a)"
  by (simp_all add: threw_def)

lemma stateOf_simps [simp]: "stateOf (Inl (err, a)) = a" "stateOf (Inr a) = a"
  by (simp_all add: stateOf_def)

lemma groupBy_Nil: "groupBy f [] = []"
  by (simp add: groupBy_def)

lemma addToGroup_not_Nil: "addToGroup k x acc \<noteq> []"
  by (cases acc) (auto split: if_splits)

lemma foldl_addToGroup_not_Nil:
  "acc \<noteq> [] \<Longrightarrow> foldl (\<lambda>acc x. addToGroup (f x) x acc) acc xs \<noteq> []"
  by (induction xs arbitrary: acc) (simp_all add: addToGroup_not_Nil)

lemma groupBy_eq_Nil: "groupBy f xs = [] \<longleftrightarrow> xs = []"
proof (cases xs)
  case Nil
  then show ?thesis by (simp add: groupBy_Nil)
next
  case (Cons x rest)
  have "foldl (\<lambda>acc x. addToGroup (f x) x acc) (addToGroup (f x) x []) rest \<noteq> []"
    by (rule foldl_addToGroup_not_Nil) simp
  then show ?thesis by (simp add: groupBy_def Cons)
qed

lemma plByTypeOf_eq_Nil: "plByTypeOf cts = [] \<longleftrightarrow> cts = []"
  by (simp add: plByTypeOf_def groupBy_eq_Nil)

lemma sortByActivityDate_Nil: "sortByActivityDate e [] = []"
  by (simp add: sortByActivityDate_def sortBy_def)

lemma matchTrades_Nil: "emitted (matchTrades []) = []"
  by (simp add: matchTrades_def emptyMatcher_def)

text \<open>
  When the matching pass closes at least one trade, \<open>calculateSummary\<close> returns and has
  replaced the summary.
\<close>

lemma calculateSummary_publishes:
  assumes "emitted (matchTrades (sortByActivityDate e tradeData)) \<noteq> []"
  shows "calculateSummary e tradeData a =
           Inr (a\<lparr>summary :=
                  \<lparr>totalPL = sumBy pl (emitted (matchTrades (sortByActivityDate e tradeData))),
                   winRate = winRateOf (emitted (matchTrades (sortByActivityDate e tradeData))),
                   tradeCount = length (emitted (matchTrades (sortByActivityDate e tradeData))),
                   avgTrade =
                     sumBy pl (emitted (matchTrades (sortByActivityDate e tradeData)))
                       / real (length (emitted (matchTrades (sortByActivityDate e tradeData)))),
                   dateRange =
                     \<lparr>dr_start = Some (ActivityDate (hd (sortByActivityDate e tradeData))),
                      dr_end = Some (ActivityDate (last (sortByActivityDate e tradeData)))\<rparr>,
                   topSymbols =
                     topSymbolsOf (emitted (matchTrades (sortByActivityDate e tradeData))),
                   plByType =
                     plByTypeOf (emitted (matchTrades (sortByActivityDate e tradeData))),
                   plByMonth =
                     Some (plByMonthOf e (emitted (matchTrades (sortByActivityDate e tradeData)))),
                   closedTrades =
                     Some (emitted (matchTrades (sortByActivityDate e tradeData)))\<rparr>,
                console := console a @ warned (matchTrades (sortByActivityDate e tradeData))\<rparr>)"
proof -
  have "tradeData \<noteq> []"
    using assms by (auto simp: sortByActivityDate_Nil matchTrades_Nil)
  with assms show ?thesis
    by (simp add: calculateSummary_def Let_def plByTypeOf_eq_Nil)
qed

text \<open>
  When the array is not empty and the matching pass closes no trade,
  \<open>calculateSummary\<close> throws at line 295: the summary is the one before the call, the
  warnings of the pass are written.
\<close>

lemma calculateSummary_throws:
  assumes "tradeData \<noteq> []"
    and "emitted (matchTrades (sortByActivityDate e tradeData)) = []"
  shows "calculateSummary e tradeData a =
           Inl (ReferenceError ''fallbackPlByType'',
                a\<lparr>console := console a @ warned (matchTrades (sortByActivityDate e tradeData))\<rparr>)"
  using assms by (simp add: calculateSummary_def Let_def plByTypeOf_eq_Nil)

lemma no_sell_emitted:
  "\<forall>t \<in> set ts. Transaction t \<noteq> ''Sell'' \<Longrightarrow>
     emitted (foldl processTrade m ts) = emitted m"
  by (induction ts arbitrary: m) (auto simp: processTrade_def Let_def)

text \<open>
  C3. The code does not do what the claim says. On an upload with two Buys and no Sell
  the matching pass closes no trade, \<open>plByType\<close> is empty, and line 295 throws the
  \<open>ReferenceError\<close> for \<open>fallbackPlByType\<close>: no summary is published and the state is the
  one before the call.
\<close>

theorem C3_fallback_reference_error:
  "calculateSummary sampleEnv
      [mkTrade ''AAPL'' ''Buy'' 10 100 1 7, mkTrade ''MSFT'' ''Buy'' 3 50 1 4] initialApp
     = Inl (ReferenceError ''fallbackPlByType'', initialApp)"
proof -
  have n: "[mkTrade ''AAPL'' ''Buy'' 10 100 1 7, mkTrade ''MSFT'' ''Buy'' 3 50 1 4] \<noteq> []"
    by simp
  have m: "matchTrades (sortByActivityDate sampleEnv
      [mkTrade ''AAPL'' ''Buy'' 10 100 1 7, mkTrade ''MSFT'' ''Buy'' 3 50 1 4]) =
      \<lparr>positions = [''MSFT-stock'' \<mapsto> [newPosition (mkTrade ''MSFT'' ''Buy'' 3 50 1 4)],
                    ''AAPL-stock'' \<mapsto> [newPosition (mkTrade ''AAPL'' ''Buy'' 10 100 1 7)]],
       emitted = [], warned = []\<rparr>"
    by (simp add: run_simps)
  show ?thesis
    by (simp add: calculateSummary_throws [OF n] m initialApp_def)
qed

section \<open>The aggregates\<close>

text \<open>
  C6. The win rate is the number of closed trades with a positive profit divided by the
  number of closed trades, times 100, and 0 when there is no closed trade; it is 0 when
  every profit is zero; and whenever the matching pass closes a trade,
  \<open>calculateSummary\<close> returns and this is the \<open>winRate\<close> of the summary it publishes.
\<close>

theorem C6_win_rate:
  "winRateOf cts =
     (if cts = [] then 0
      else real (card {i. i < length cts \<and> 0 < pl (cts ! i)}) / real (length cts) * 100)
   \<and> ((\<forall>c \<in> set cts. pl c = 0) \<longrightarrow> winRateOf cts = 0)
   \<and> (emitted (matchTrades (sortByActivityDate e tradeData)) \<noteq> [] \<longrightarrow>
        \<not> threw (calculateSummary e tradeData a)
        \<and> winRate (summary (stateOf (calculateSummary e tradeData a)))
            = winRateOf (emitted (matchTrades (sortByActivityDate e tradeData))))"
proof -
  have "(\<forall>c \<in> set cts. pl c = 0) \<Longrightarrow> filter (\<lambda>c. 0 < pl c) cts = []"
    by (induction cts) auto
  then show ?thesis
    by (auto simp: winRateOf_def Let_def length_filter_conv_card calculateSummary_publishes)
qed

theorem C6_win_rate_witness:
  "winRateOf [mkClosedTrade None 0, mkClosedTrade None 0] = 0
   \<and> \<not> threw (calculateSummary sampleEnv
        [mkTrade ''AAPL'' ''Buy'' 10 100 1 1, mkTrade ''AAPL'' ''Sell'' 10 110 1 2]
        initialApp)
   \<and> winRate (summary (stateOf (calculateSummary sampleEnv
        [mkTrade ''AAPL'' ''Buy'' 10 100 1 1, mkTrade ''AAPL'' ''Sell'' 10 110 1 2]
        initialApp))) = 100"
proof -
  have z: "\<forall>c \<in> set [mkClosedTrade None 0, mkClosedTrade None 0]. pl c = 0"
    by (simp add: mkClosedTrade_def)
  have n: "emitted (matchTrades (sortByActivityDate sampleEnv
        [mkTrade ''AAPL'' ''Buy'' 10 100 1 1, mkTrade ''AAPL'' ''Sell'' 10 110 1 2])) \<noteq> []"
    by (simp add: example_run)
  from C6_win_rate [of "[mkClosedTrade None 0, mkClosedTrade None 0]" sampleEnv
      "[mkTrade ''AAPL'' ''Buy'' 10 100 1 1, mkTrade ''AAPL'' ''Sell'' 10 110 1 2]"
      initialApp] z n
  show ?thesis
    by (simp add: example_run winRateOf_def)
qed

lemma addToGroup_nonempty:
  "\<forall>(k, g) \<in> set acc. g \<noteq> [] \<Longrightarrow> \<forall>(k, g) \<in> set (addToGroup k0 x acc). g \<noteq> []"
  by (induction acc) (auto split: if_splits)

lemma foldl_addToGroup_nonempty:
  "\<forall>(k, g) \<in> set acc. g \<noteq> [] \<Longrightarrow>
     \<forall>(k, g) \<in> set (foldl (\<lambda>acc x. addToGroup (f x) x acc) acc xs). g \<noteq> []"
proof (induction xs arbitrary: acc)
  case Nil
  then show ?case by simp
next
  case (Cons x xs)
  show ?case
    using Cons.IH [OF addToGroup_nonempty [OF Cons.prems]] by simp
qed

lemma groupBy_nonempty: "(k, g) \<in> set (groupBy f xs) \<Longrightarrow> g \<noteq> []"
  using foldl_addToGroup_nonempty [of "[]" f xs] by (auto simp: groupBy_def)

text \<open>
  C9. Every row of \<open>callPutPerformance\<close> comes from a group with at least one
  closed trade, so its win rate is the quotient of a division by a non-zero count.
\<close>

theorem C9_group_division:
  "\<forall>row \<in> set (callPutPerformance s).
      0 < cp_count row \<and> (\<exists>r. cp_winRate row = Some r)"
  by (auto simp: callPutPerformance_def jsDivide_def dest: groupBy_nonempty)

theorem C9_group_division_witness:
  "callPutPerformance
     (initialSummary\<lparr>closedTrades :=
        Some [mkClosedTrade (Some ''CALL'') 5, mkClosedTrade None 3,
              mkClosedTrade (Some ''PUT'') (-2), mkClosedTrade (Some ''CALL'') (-1)]\<rparr>)
   = [\<lparr>cp_type = ''CALL'', cp_pl = 4, cp_count = 2, cp_winRate = Some 50\<rparr>,
      \<lparr>cp_type = ''PUT'', cp_pl = -2, cp_count = 1, cp_winRate = Some 0\<rparr>]"
  using C9_group_division [of "initialSummary\<lparr>closedTrades :=
        Some [mkClosedTrade (Some ''CALL'') 5, mkClosedTrade None 3,
              mkClosedTrade (Some ''PUT'') (-2), mkClosedTrade (Some ''CALL'') (-1)]\<rparr>"]
  by (simp add: callPutPerformance_def optionsTradesOf_def groupBy_def mkClosedTrade_def
      sumBy_def jsDivide_def)

section \<open>The date range and the empty input\<close>

lemma sorted_hd_Min:
  assumes "sorted (map f ys)" and "ys \<noteq> []"
  shows "f (hd ys) = Min (f ` set ys)"
proof -
  from assms obtain y rest where ys: "ys = y # rest" by (cases ys) auto
  with assms(1) have "\<forall>z \<in> set rest. f y \<le> f z" by simp
  then have "Min (f ` set ys) = f y"
    unfolding ys by (intro Min_eqI) auto
  then show ?thesis by (simp add: ys)
qed

lemma sorted_last_Max:
  assumes "sorted (map f ys)" and "ys \<noteq> []"
  shows "f (last ys) = Max (f ` set ys)"
proof -
  have "\<forall>z \<in> set ys. f z \<le> f (last ys)"
    using assms
  proof (induction ys)
    case Nil
    then show ?case by simp
  next
    case (Cons y rest)
    then show ?case by (cases rest) auto
  qed
  then have "Max (f ` set ys) = f (last ys)"
    using assms(2) by (intro Max_eqI) auto
  then show ?thesis by simp
qed

lemma isValid_Date: "isValid d \<Longrightarrow> d = Date (timeValue d)"
  by (cases d) (simp_all add: isValid_def timeValue_def)

lemma sortByActivityDate_valid:
  assumes "\<forall>t \<in> set tradeData. isValid (ActivityDate t)"
  shows "sortByActivityDate e tradeData = sort_key (\<lambda>t. timeValue (ActivityDate t)) tradeData"
  using assms by (simp add: sortByActivityDate_def sortBy_def list_all_iff)

text \<open>
  With valid dates only and at least one closed trade, the published date range is the
  earliest and the latest date of the array passed to \<open>calculateSummary\<close>.
\<close>

lemma dateRange_published:
  assumes valid: "\<forall>t \<in> set tradeData. isValid (ActivityDate t)"
    and closes: "emitted (matchTrades (sortByActivityDate e tradeData)) \<noteq> []"
  shows "\<not> threw (calculateSummary e tradeData a)"
    and "dateRange (summary (stateOf (calculateSummary e tradeData a))) =
           \<lparr>dr_start = Some (Date (Min ((\<lambda>t. timeValue (ActivityDate t)) ` set tradeData))),
            dr_end = Some (Date (Max ((\<lambda>t. timeValue (ActivityDate t)) ` set tradeData)))\<rparr>"
proof -
  let ?k = "\<lambda>t. timeValue (ActivityDate t)"
  let ?s = "sortByActivityDate e tradeData"
  have ne0: "tradeData \<noteq> []"
    using closes by (auto simp: sortByActivityDate_Nil matchTrades_Nil)
  have s: "?s = sort_key ?k tradeData"
    by (rule sortByActivityDate_valid [OF valid])
  have "length ?s = length tradeData" by (simp add: s)
  with ne0 have ne: "?s \<noteq> []" by auto
  have srt: "sorted (map ?k ?s)" and st: "set ?s = set tradeData"
    by (simp_all add: s)
  from ne have "hd ?s \<in> set ?s" "last ?s \<in> set ?s" by simp_all
  with st valid have "isValid (ActivityDate (hd ?s))" "isValid (ActivityDate (last ?s))"
    by auto
  then have "ActivityDate (hd ?s) = Date (?k (hd ?s))" "ActivityDate (last ?s) = Date (?k (last ?s))"
    by (auto dest: isValid_Date)
  with sorted_hd_Min [OF srt ne] sorted_last_Max [OF srt ne] st
  have d: "ActivityDate (hd ?s) = Date (Min (?k ` set tradeData))"
    "ActivityDate (last ?s) = Date (Max (?k ` set tradeData))"
    by simp_all
  show "\<not> threw (calculateSummary e tradeData a)"
    by (simp add: calculateSummary_publishes [OF closes])
  show "dateRange (summary (stateOf (calculateSummary e tradeData a))) =
           \<lparr>dr_start = Some (Date (Min (?k ` set tradeData))),
            dr_end = Some (Date (Max (?k ` set tradeData)))\<rparr>"
    by (simp add: calculateSummary_publishes [OF closes] d)
qed

text \<open>
  C5, as amended. On the empty array \<open>calculateSummary\<close> returns at once: it
  publishes nothing and the state is unchanged, and so is the state after the effect when
  no trade is loaded. The summary is the zeroed one only when it is still the initial
  summary.
\<close>

theorem C5_empty_input:
  "calculateSummary e [] a = Inr a
   \<and> useEffect e (a\<lparr>trades := []\<rparr>) = Inr (a\<lparr>trades := []\<rparr>)
   \<and> summary (stateOf (calculateSummary e [] initialApp)) =
       \<lparr>totalPL = 0, winRate = 0, tradeCount = 0, avgTrade = 0,
        dateRange = \<lparr>dr_start = None, dr_end = None\<rparr>,
        topSymbols = [], plByType = [], plByMonth = None, closedTrades = None\<rparr>"
  by (simp add: calculateSummary_def useEffect_def initialApp_def initialSummary_def)

lemma uploadedApp_state:
  "\<not> threw (calculateSummary sampleEnv
       [mkTrade ''AAPL'' ''Buy'' 10 100 1 1, mkTrade ''AAPL'' ''Sell'' 10 110 1 2]
       (initialApp\<lparr>trades := [mkTrade ''AAPL'' ''Buy'' 10 100 1 1,
                                mkTrade ''AAPL'' ''Sell'' 10 110 1 2]\<rparr>))"
  "trades uploadedApp = [mkTrade ''AAPL'' ''Buy'' 10 100 1 1, mkTrade ''AAPL'' ''Sell'' 10 110 1 2]"
  "filterSymbol uploadedApp = []"
  "totalPL (summary uploadedApp) = 98"
  "tradeCount (summary uploadedApp) = 1"
proof -
  have n: "emitted (matchTrades (sortByActivityDate sampleEnv
        [mkTrade ''AAPL'' ''Buy'' 10 100 1 1, mkTrade ''AAPL'' ''Sell'' 10 110 1 2])) \<noteq> []"
    by (simp add: example_run)
  show "\<not> threw (calculateSummary sampleEnv
       [mkTrade ''AAPL'' ''Buy'' 10 100 1 1, mkTrade ''AAPL'' ''Sell'' 10 110 1 2]
       (initialApp\<lparr>trades := [mkTrade ''AAPL'' ''Buy'' 10 100 1 1,
                                mkTrade ''AAPL'' ''Sell'' 10 110 1 2]\<rparr>))"
    by (simp add: calculateSummary_publishes [OF n])
  show "trades uploadedApp = [mkTrade ''AAPL'' ''Buy'' 10 100 1 1, mkTrade ''AAPL'' ''Sell'' 10 110 1 2]"
    "filterSymbol uploadedApp = []"
    "totalPL (summary uploadedApp) = 98"
    "tradeCount (summary uploadedApp) = 1"
    by (simp_all add: uploadedApp_def calculateSummary_publishes [OF n] example_run
        sumBy_def initialApp_def)
qed

text \<open>
  C5 as stated fails: once a summary with one closed trade and profit 98 has been
  published, \<open>calculateSummary\<close> on the empty array leaves that summary in place. The
  component reaches this when a filter leaves no trade: with the timeframe \<open>week\<close> both
  trades are before the cutoff, and the summary still counts one closed trade.
\<close>

theorem C5_empty_input_counterexample:
  "\<not> threw (calculateSummary sampleEnv
       [mkTrade ''AAPL'' ''Buy'' 10 100 1 1, mkTrade ''AAPL'' ''Sell'' 10 110 1 2]
       (initialApp\<lparr>trades := [mkTrade ''AAPL'' ''Buy'' 10 100 1 1,
                                mkTrade ''AAPL'' ''Sell'' 10 110 1 2]\<rparr>))
   \<and> totalPL (summary (stateOf (calculateSummary sampleEnv [] uploadedApp))) = 98
   \<and> tradeCount (summary (stateOf (calculateSummary sampleEnv [] uploadedApp))) = 1
   \<and> filteredTradesOf sampleEnv (uploadedApp\<lparr>timeframe := ''week''\<rparr>) = []
   \<and> \<not> threw (useEffect sampleEnv (uploadedApp\<lparr>timeframe := ''week''\<rparr>))
   \<and> tradeCount (summary (stateOf (useEffect sampleEnv (uploadedApp\<lparr>timeframe := ''week''\<rparr>))))
       = 1"
proof -
  have f: "filteredTradesOf sampleEnv (uploadedApp\<lparr>timeframe := ''week''\<rparr>) = []"
    by (simp add: filteredTradesOf_def uploadedApp_state sampleEnv_def mkTrade_def
        dateAtLeast_def)
  show ?thesis
    by (simp add: f useEffect_def uploadedApp_state calculateSummary_def [of _ "[]"])
qed

text \<open>
  C4, as amended. When the filtered array has valid dates only and its matching pass
  closes at least one trade, the effect publishes a summary whose date range is the
  earliest and the latest \<open>ActivityDate\<close> of the filtered trades (the array passed to
  \<open>calculateSummary\<close>); no closed trade enters it.
\<close>

theorem C4_date_range:
  assumes "trades a \<noteq> []"
    and "\<forall>t \<in> set (filteredTradesOf e a). isValid (ActivityDate t)"
    and "emitted (matchTrades (sortByActivityDate e (filteredTradesOf e a))) \<noteq> []"
  shows "\<not> threw (useEffect e a)
       \<and> dateRange (summary (stateOf (useEffect e a))) =
           \<lparr>dr_start = Some (Date (Min ((\<lambda>t. timeValue (ActivityDate t))
                                          ` set (filteredTradesOf e a)))),
            dr_end = Some (Date (Max ((\<lambda>t. timeValue (ActivityDate t))
                                        ` set (filteredTradesOf e a))))\<rparr>"
  using assms(1) dateRange_published [OF assms(2,3), of a]
  by (simp add: useEffect_def)

lemma weekApp_filtered:
  "filteredTradesOf sampleEnv weekApp =
     [mkTrade ''AAPL'' ''Buy'' 10 100 1 6, mkTrade ''AAPL'' ''Sell'' 10 110 1 9]"
  by (simp add: filteredTradesOf_def weekApp_def initialApp_def sampleEnv_def mkTrade_def
      dateAtLeast_def)

lemma weekApp_filtered_run:
  "emitted (matchTrades (sortByActivityDate sampleEnv
      [mkTrade ''AAPL'' ''Buy'' 10 100 1 6, mkTrade ''AAPL'' ''Sell'' 10 110 1 9])) =
     [\<lparr>symbol = ''AAPL'', openDate = Date 6, closeDate = Date 9, quantity = 10,
       openPrice = 100, closePrice = 110, pl = 98, type = ''Margin'', callPut = None\<rparr>]"
  by (simp add: run_simps)

lemma weekApp_unfiltered_run:
  "map quantity (emitted (matchTrades (sortByActivityDate sampleEnv (trades weekApp)))) = [5, 5]"
  by (simp add: weekApp_def run_simps)

theorem C4_date_range_witness:
  "\<not> threw (useEffect sampleEnv weekApp)
   \<and> dateRange (summary (stateOf (useEffect sampleEnv weekApp)))
       = \<lparr>dr_start = Some (Date 6), dr_end = Some (Date 9)\<rparr>"
proof -
  have t: "trades weekApp \<noteq> []" by (simp add: weekApp_def)
  have v: "\<forall>t \<in> set (filteredTradesOf sampleEnv weekApp). isValid (ActivityDate t)"
    by (simp add: weekApp_filtered mkTrade_def isValid_def)
  have c: "emitted (matchTrades (sortByActivityDate sampleEnv
             (filteredTradesOf sampleEnv weekApp))) \<noteq> []"
    by (simp add: weekApp_filtered weekApp_filtered_run)
  from C4_date_range [OF t v c] show ?thesis
    by (simp add: weekApp_filtered mkTrade_def timeValue_def)
qed

text \<open>
  C4 as stated fails: with a Buy on day 1 and a Buy on day 6 and a Sell on day 9 loaded,
  \<open>calculateSummary\<close> on all three publishes a date range that starts on day 1; with a
  cutoff on day 5 the effect publishes a date range that starts on day 6, not on the
  earliest date before filtering. Both runs close a trade, so both publish.
\<close>

theorem C4_date_range_counterexample:
  "\<not> threw (calculateSummary sampleEnv (trades weekApp) weekApp)
   \<and> dr_start (dateRange (summary (stateOf (calculateSummary sampleEnv (trades weekApp) weekApp))))
       = Some (Date 1)
   \<and> ActivityDate (hd (sortByActivityDate sampleEnv (trades weekApp))) = Date 1
   \<and> \<not> threw (useEffect sampleEnv weekApp)
   \<and> dr_start (dateRange (summary (stateOf (useEffect sampleEnv weekApp)))) = Some (Date 6)"
proof -
  have t: "trades weekApp \<noteq> []" by (simp add: weekApp_def)
  have v: "\<forall>t \<in> set (filteredTradesOf sampleEnv weekApp). isValid (ActivityDate t)"
    by (simp add: weekApp_filtered mkTrade_def isValid_def)
  have c: "emitted (matchTrades (sortByActivityDate sampleEnv
             (filteredTradesOf sampleEnv weekApp))) \<noteq> []"
    by (simp add: weekApp_filtered weekApp_filtered_run)
  have v0: "\<forall>t \<in> set (trades weekApp). isValid (ActivityDate t)"
    by (simp add: weekApp_def initialApp_def mkTrade_def isValid_def)
  have c0: "emitted (matchTrades (sortByActivityDate sampleEnv (trades weekApp))) \<noteq> []"
    using weekApp_unfiltered_run by auto
  have h: "ActivityDate (hd (sortByActivityDate sampleEnv (trades weekApp))) = Date 1"
    by (simp add: weekApp_def sortByActivityDate_def sortBy_def isValid_def timeValue_def
        mkTrade_def)
  from dateRange_published [OF v0 c0, of weekApp]
    dateRange_published [OF v c, of weekApp] t h
  show ?thesis
    by (simp add: useEffect_def weekApp_filtered)
       (simp add: weekApp_def mkTrade_def timeValue_def)
qed

section \<open>Transactions that are neither Buy nor Sell\<close>

lemma queueOf_update [simp]:
  "queueOf (m\<lparr>positions := (positions m)(key \<mapsto> q)\<rparr>) k = (if k = key then q else queueOf m k)"
  "queueOf (m\<lparr>emitted := em\<rparr>) k = queueOf m k"
  "queueOf (m\<lparr>warned := w\<rparr>) k = queueOf m k"
  by (simp_all add: queueOf_def)

lemma processTrade_queueOf:
  "processTrade m t =
     (let key = tradeKey t; queue = queueOf m key
      in if Transaction t = ''Buy'' then
           m\<lparr>positions := (positions m)(key \<mapsto> queue @ [newPosition t])\<rparr>
         else if Transaction t = ''Sell'' then
           (case matchSell t (Quantity t) queue (emitted m) of
              (remainingQty, queue', emitted') \<Rightarrow>
                m\<lparr>positions := (positions m)(key \<mapsto> queue'),
                  emitted := emitted',
                  warned := (if remainingQty > 0 then warned m @ [(key, remainingQty)]
                             else warned m)\<rparr>)
         else m\<lparr>positions := (positions m)(key \<mapsto> queue)\<rparr>)"
  by (simp add: processTrade_def queueOf_def)

lemma skipSim_step:
  assumes "skipSim m m'"
  shows "skipSim (processTrade m t) (processTrade m' t)"
proof -
  from assms have q: "\<And>k. queueOf m k = queueOf m' k" and e: "emitted m = emitted m'"
    and w: "warned m = warned m'"
    by (simp_all add: skipSim_def)
  show ?thesis
    unfolding skipSim_def processTrade_queueOf Let_def
    by (simp add: q e w split: prod.splits)
qed

lemma skipSim_skip:
  assumes "skipSim m m'" and "Transaction t \<noteq> ''Buy''" and "Transaction t \<noteq> ''Sell''"
  shows "skipSim (processTrade m t) m'"
  using assms unfolding skipSim_def processTrade_queueOf Let_def
  by simp

lemma skipSim_foldl:
  "skipSim m m' \<Longrightarrow>
     skipSim (foldl processTrade m ts)
       (foldl processTrade m'
          (filter (\<lambda>t. Transaction t = ''Buy'' \<or> Transaction t = ''Sell'') ts))"
proof (induction ts arbitrary: m m')
  case Nil
  then show ?case by simp
next
  case (Cons t ts)
  show ?case
  proof (cases "Transaction t = ''Buy'' \<or> Transaction t = ''Sell''")
    case True
    with Cons.IH [OF skipSim_step [OF Cons.prems, of t]] show ?thesis by simp
  next
    case False
    with Cons.IH [OF skipSim_skip [OF Cons.prems, of t]] show ?thesis by simp
  qed
qed

text \<open>
  C10. A trade whose \<open>Transaction\<close> is neither \<open>Buy\<close> nor \<open>Sell\<close> changes no
  queue, emits no closed trade and writes no warning; the matching pass gives the same
  closed trades and the same queues as on the sorted trades without such rows. The trade
  is still sorted with the others: in a run with valid dates that closes a trade (so that
  a summary is published), when no trade is earlier its date is the start of the date
  range, and when no trade is later its date is the end.
\<close>

theorem C10_other_transactions:
  assumes "u \<in> set tradeData"
    and "Transaction u \<noteq> ''Buy''" and "Transaction u \<noteq> ''Sell''"
  shows "emitted (processTrade m u) = emitted m
       \<and> warned (processTrade m u) = warned m
       \<and> (\<forall>k. queueOf (processTrade m u) k = queueOf m k)
       \<and> emitted (matchTrades (sortByActivityDate e tradeData))
           = emitted (matchTrades
               (filter (\<lambda>t. Transaction t = ''Buy'' \<or> Transaction t = ''Sell'')
                  (sortByActivityDate e tradeData)))
       \<and> (\<forall>k. queueOf (matchTrades (sortByActivityDate e tradeData)) k
                = queueOf (matchTrades
                    (filter (\<lambda>t. Transaction t = ''Buy'' \<or> Transaction t = ''Sell'')
                       (sortByActivityDate e tradeData))) k)
       \<and> ((\<forall>t \<in> set tradeData. isValid (ActivityDate t))
            \<and> emitted (matchTrades (sortByActivityDate e tradeData)) \<noteq> [] \<longrightarrow>
            \<not> threw (calculateSummary e tradeData a)
            \<and> ((\<forall>t \<in> set tradeData.
                   timeValue (ActivityDate u) \<le> timeValue (ActivityDate t)) \<longrightarrow>
                 dr_start (dateRange (summary (stateOf (calculateSummary e tradeData a))))
                   = Some (ActivityDate u))
            \<and> ((\<forall>t \<in> set tradeData.
                   timeValue (ActivityDate t) \<le> timeValue (ActivityDate u)) \<longrightarrow>
                 dr_end (dateRange (summary (stateOf (calculateSummary e tradeData a))))
                   = Some (ActivityDate u)))"
proof -
  let ?k = "\<lambda>t. timeValue (ActivityDate t)"
  have s: "skipSim m m" by (simp add: skipSim_def)
  have one: "skipSim (processTrade m u) m"
    by (rule skipSim_skip [OF s assms(2,3)])
  have e0: "skipSim emptyMatcher emptyMatcher" by (simp add: skipSim_def)
  have lo: "Min (?k ` set tradeData) = ?k u"
    if "\<forall>t \<in> set tradeData. ?k u \<le> ?k t"
    using that assms(1) by (intro Min_eqI) auto
  have hi: "Max (?k ` set tradeData) = ?k u"
    if "\<forall>t \<in> set tradeData. ?k t \<le> ?k u"
    using that assms(1) by (intro Max_eqI) auto
  have matcher: "emitted (processTrade m u) = emitted m
       \<and> warned (processTrade m u) = warned m
       \<and> (\<forall>k. queueOf (processTrade m u) k = queueOf m k)
       \<and> emitted (matchTrades (sortByActivityDate e tradeData))
           = emitted (matchTrades
               (filter (\<lambda>t. Transaction t = ''Buy'' \<or> Transaction t = ''Sell'')
                  (sortByActivityDate e tradeData)))
       \<and> (\<forall>k. queueOf (matchTrades (sortByActivityDate e tradeData)) k
                = queueOf (matchTrades
                    (filter (\<lambda>t. Transaction t = ''Buy'' \<or> Transaction t = ''Sell'')
                       (sortByActivityDate e tradeData))) k)"
    using one skipSim_foldl [OF e0, of "sortByActivityDate e tradeData"]
    by (simp add: skipSim_def matchTrades_def)
  have dates: "\<not> threw (calculateSummary e tradeData a)
            \<and> ((\<forall>t \<in> set tradeData. ?k u \<le> ?k t) \<longrightarrow>
                 dr_start (dateRange (summary (stateOf (calculateSummary e tradeData a))))
                   = Some (ActivityDate u))
            \<and> ((\<forall>t \<in> set tradeData. ?k t \<le> ?k u) \<longrightarrow>
                 dr_end (dateRange (summary (stateOf (calculateSummary e tradeData a))))
                   = Some (ActivityDate u))"
    if valid: "\<forall>t \<in> set tradeData. isValid (ActivityDate t)"
      and closes: "emitted (matchTrades (sortByActivityDate e tradeData)) \<noteq> []"
  proof -
    from valid assms(1) have "ActivityDate u = Date (?k u)"
      by (auto dest: isValid_Date)
    with dateRange_published [OF valid closes, of a] lo hi show ?thesis
      by simp
  qed
  from matcher dates show ?thesis by blast
qed

theorem C10_other_transactions_witness:
  "emitted (matchTrades (sortByActivityDate sampleEnv mixedTrades))
     = emitted (matchTrades
         [mkTrade ''AAPL'' ''Buy'' 10 100 1 2, mkTrade ''AAPL'' ''Sell'' 10 110 1 3])
   \<and> \<not> threw (calculateSummary sampleEnv mixedTrades initialApp)
   \<and> dateRange (summary (stateOf (calculateSummary sampleEnv mixedTrades initialApp)))
     = \<lparr>dr_start = Some (Date 1), dr_end = Some (Date 5)\<rparr>"
proof -
  let ?u1 = "mkTrade ''AAPL'' ''Unknown'' 1 0 0 1"
  let ?u2 = "mkTrade ''AAPL'' ''Dividend'' 1 0 0 5"
  let ?d = "dateRange (summary (stateOf (calculateSummary sampleEnv mixedTrades initialApp)))"
  have u1: "?u1 \<in> set mixedTrades" "Transaction ?u1 \<noteq> ''Buy''" "Transaction ?u1 \<noteq> ''Sell''"
    and lo: "\<forall>t \<in> set mixedTrades. timeValue (ActivityDate ?u1) \<le> timeValue (ActivityDate t)"
    by (simp_all add: mixedTrades_def mkTrade_def timeValue_def)
  have u2: "?u2 \<in> set mixedTrades" "Transaction ?u2 \<noteq> ''Buy''" "Transaction ?u2 \<noteq> ''Sell''"
    and hi: "\<forall>t \<in> set mixedTrades. timeValue (ActivityDate t) \<le> timeValue (ActivityDate ?u2)"
    by (simp_all add: mixedTrades_def mkTrade_def timeValue_def)
  have v: "\<forall>t \<in> set mixedTrades. isValid (ActivityDate t)"
    by (simp add: mixedTrades_def mkTrade_def isValid_def)
  have f: "filter (\<lambda>t. Transaction t = ''Buy'' \<or> Transaction t = ''Sell'')
             (sortByActivityDate sampleEnv mixedTrades)
           = [mkTrade ''AAPL'' ''Buy'' 10 100 1 2, mkTrade ''AAPL'' ''Sell'' 10 110 1 3]"
    by (simp add: mixedTrades_def sortByActivityDate_def sortBy_def isValid_def timeValue_def
        mkTrade_def)
  have r: "emitted (matchTrades
         [mkTrade ''AAPL'' ''Buy'' 10 100 1 2, mkTrade ''AAPL'' ''Sell'' 10 110 1 3]) \<noteq> []"
    by (simp add: run_simps)
  have d: "?d = \<lparr>dr_start = dr_start ?d, dr_end = dr_end ?d\<rparr>"
    by simp
  from C10_other_transactions [OF u1, of emptyMatcher sampleEnv initialApp]
  have m1: "emitted (matchTrades (sortByActivityDate sampleEnv mixedTrades))
     = emitted (matchTrades
         [mkTrade ''AAPL'' ''Buy'' 10 100 1 2, mkTrade ''AAPL'' ''Sell'' 10 110 1 3])"
    by (simp add: f)
  with r have c: "emitted (matchTrades (sortByActivityDate sampleEnv mixedTrades)) \<noteq> []"
    by simp
  from C10_other_transactions [OF u1, of emptyMatcher sampleEnv initialApp] v c lo
  have a: "\<not> threw (calculateSummary sampleEnv mixedTrades initialApp)"
    "dr_start ?d = Some (ActivityDate ?u1)"
    by blast+
  from C10_other_transactions [OF u2, of emptyMatcher sampleEnv initialApp] v c hi
  have b: "dr_end ?d = Some (ActivityDate ?u2)"
    by blast
  show ?thesis
    using m1 a(1) by (subst d) (simp add: a(2) b mkTrade_def)
qed

section \<open>Unmatched sells\<close>

text \<open>
  When something is left to sell after the loop, the loop never took the partial branch
  (which leaves nothing) and stopped on the empty queue: every queued lot was closed
  fully and what is left is the quantity to sell minus the total of the lots.
\<close>

lemma matchSell_leftover:
  assumes "0 < fst (matchSell t r queue em)"
  shows "matchSell t r queue em =
           (r - sum_list (map remainingQuantity queue), [],
            em @ map (\<lambda>lot. mkClosed t lot (remainingQuantity lot)
                        (closeAmount t (remainingQuantity lot)
                           - openAmountFull lot (remainingQuantity lot))) queue)"
  using assms
proof (induction queue arbitrary: r em)
  case Nil
  then show ?case by (simp add: matchSell_Nil)
next
  case (Cons lot queue)
  have r: "0 < r"
  proof (rule ccontr)
    assume "\<not> 0 < r"
    then have "matchSell t r (lot # queue) em = (r, lot # queue, em)"
      by (simp add: matchSell_done)
    with Cons.prems \<open>\<not> 0 < r\<close> show False by simp
  qed
  have full: "remainingQuantity lot \<le> r"
  proof (rule ccontr)
    assume "\<not> remainingQuantity lot \<le> r"
    with r have "fst (matchSell t r (lot # queue) em) = 0"
      by (simp add: matchSell_Cons matchStep_def Let_def matchSell_done)
    with Cons.prems show False by simp
  qed
  let ?c = "mkClosed t lot (remainingQuantity lot)
              (closeAmount t (remainingQuantity lot) - openAmountFull lot (remainingQuantity lot))"
  have step: "matchSell t r (lot # queue) em =
                matchSell t (r - remainingQuantity lot) queue (em @ [?c])"
    using r full by (simp add: matchSell_Cons matchStep_def Let_def)
  with Cons.prems have "0 < fst (matchSell t (r - remainingQuantity lot) queue (em @ [?c]))"
    by simp
  from Cons.IH [OF this] show ?case
    by (simp add: step diff_diff_eq)
qed

text \<open>
  C7. When the queue of the Sell's key empties while something is left to sell (the
  condition of line 218), every queued lot has been closed fully, one closed trade per
  lot with the lot's remaining quantity; nothing is emitted for what is left, which is
  the Sell's quantity minus the total of the queue, is positive, and is written as one
  warning with the key; the queue is left empty and the pass goes on with the state
  returned. With no lot queued at all, nothing is emitted and the warning carries the
  Sell's whole quantity.
\<close>

theorem C7_unmatched_sell:
  assumes "Transaction t = ''Sell''"
    and "0 < fst (matchSell t (Quantity t) (queueOf m (tradeKey t)) (emitted m))"
  shows "(\<exists>new. emitted (processTrade m t) = emitted m @ new
            \<and> map quantity new = map remainingQuantity (queueOf m (tradeKey t)))
       \<and> sum_list (map remainingQuantity (queueOf m (tradeKey t))) < Quantity t
       \<and> warned (processTrade m t) =
           warned m @ [(tradeKey t,
                        Quantity t - sum_list (map remainingQuantity (queueOf m (tradeKey t))))]
       \<and> queueOf (processTrade m t) (tradeKey t) = []
       \<and> (queueOf m (tradeKey t) = [] \<longrightarrow>
            emitted (processTrade m t) = emitted m
          \<and> warned (processTrade m t) = warned m @ [(tradeKey t, Quantity t)])"
proof -
  let ?q = "queueOf m (tradeKey t)"
  let ?new = "map (\<lambda>lot. mkClosed t lot (remainingQuantity lot)
                        (closeAmount t (remainingQuantity lot)
                           - openAmountFull lot (remainingQuantity lot))) ?q"
  have run: "matchSell t (Quantity t) ?q (emitted m) =
               (Quantity t - sum_list (map remainingQuantity ?q), [], emitted m @ ?new)"
    by (rule matchSell_leftover [OF assms(2)])
  with assms(2) have pos: "0 < Quantity t - sum_list (map remainingQuantity ?q)"
    by simp
  have qty: "map quantity ?new = map remainingQuantity ?q"
    by (simp add: mkClosed_def)
  have p: "processTrade m t =
             m\<lparr>positions := (positions m)(tradeKey t \<mapsto> []),
               emitted := emitted m @ ?new,
               warned := warned m @
                 [(tradeKey t, Quantity t - sum_list (map remainingQuantity ?q))]\<rparr>"
    unfolding processTrade_queueOf Let_def using assms(1) pos by (simp add: run)
  have e: "\<exists>new. emitted (processTrade m t) = emitted m @ new
            \<and> map quantity new = map remainingQuantity ?q"
    unfolding p using qty by (intro exI [of _ ?new]) simp
  have lt: "sum_list (map remainingQuantity ?q) < Quantity t"
    using pos by simp
  have w: "warned (processTrade m t) =
         warned m @ [(tradeKey t, Quantity t - sum_list (map remainingQuantity ?q))]"
    unfolding p by simp
  have q: "queueOf (processTrade m t) (tradeKey t) = []"
    unfolding p by simp
  have n: "emitted (processTrade m t) = emitted m
          \<and> warned (processTrade m t) = warned m @ [(tradeKey t, Quantity t)]"
    if "?q = []"
    unfolding p by (simp add: that)
  from e lt w q n show ?thesis by blast
qed

theorem C7_unmatched_sell_witness:
  "map quantity (emitted (processTrade (matchTrades [mkTrade ''AAPL'' ''Buy'' 10 100 1 1])
                    (mkTrade ''AAPL'' ''Sell'' 15 110 1 2))) = [10]
   \<and> warned (processTrade (matchTrades [mkTrade ''AAPL'' ''Buy'' 10 100 1 1])
               (mkTrade ''AAPL'' ''Sell'' 15 110 1 2)) = [(''AAPL-stock'', 5)]
   \<and> emitted (processTrade emptyMatcher (mkTrade ''AAPL'' ''Sell'' 15 110 1 2)) = []
   \<and> warned (processTrade emptyMatcher (mkTrade ''AAPL'' ''Sell'' 15 110 1 2))
       = [(''AAPL-stock'', 15)]"
proof -
  let ?m = "matchTrades [mkTrade ''AAPL'' ''Buy'' 10 100 1 1]"
  let ?t = "mkTrade ''AAPL'' ''Sell'' 15 110 1 2"
  have k: "tradeKey ?t = ''AAPL-stock''"
    by (simp add: tradeKey_def callPutOrStock_def mkTrade_def)
  have q: "queueOf ?m ''AAPL-stock'' = [newPosition (mkTrade ''AAPL'' ''Buy'' 10 100 1 1)]"
    by (simp add: queueOf_def matchTrades_def emptyMatcher_def processTrade_def tradeKey_def
        callPutOrStock_def mkTrade_def)
  have e: "emitted ?m = []" "warned ?m = []"
    by (simp_all add: matchTrades_def emptyMatcher_def processTrade_def mkTrade_def)
  have q0: "queueOf emptyMatcher ''AAPL-stock'' = []"
    by (simp add: queueOf_def emptyMatcher_def)
  have z: "emitted emptyMatcher = []" "warned emptyMatcher = []"
    by (simp_all add: emptyMatcher_def)
  have s: "Transaction ?t = ''Sell''" by (simp add: mkTrade_def)
  have h: "0 < fst (matchSell ?t (Quantity ?t) (queueOf ?m (tradeKey ?t)) (emitted ?m))"
    unfolding k q e
    by (simp add: matchSell_Cons matchSell_Nil matchStep_def Let_def mkTrade_def)
  have g: "0 < fst (matchSell ?t (Quantity ?t) (queueOf emptyMatcher (tradeKey ?t))
                      (emitted emptyMatcher))"
    unfolding k q0 z by (simp add: matchSell_Nil mkTrade_def)
  have g3: "queueOf emptyMatcher (tradeKey ?t) = []"
    unfolding k by (rule q0)
  from C7_unmatched_sell [OF s h] C7_unmatched_sell [OF s g] g3
  show ?thesis
    unfolding k q e z by (auto simp: mkTrade_def)
qed

text \<open>
  The condition holds in particular when no queued lot has a negative remaining quantity
  and the Sell's quantity exceeds the total of the queue; and no lot has a negative
  remaining quantity as long as no Buy has a negative \<open>Quantity\<close>. With a negative lot the
  signed total does not decide: with lots of -15 and 20 a Sell of 10 closes both lots and
  leaves 5 unmatched, with lots of 20 and -15 it is closed against the first lot and
  nothing is left.
\<close>

lemma matchSell_exhaust:
  assumes "\<forall>lot \<in> set queue. 0 \<le> remainingQuantity lot"
    and "sum_list (map remainingQuantity queue) < r"
  shows "matchSell t r queue em =
           (r - sum_list (map remainingQuantity queue), [],
            em @ map (\<lambda>lot. mkClosed t lot (remainingQuantity lot)
                        (closeAmount t (remainingQuantity lot)
                           - openAmountFull lot (remainingQuantity lot))) queue)"
  using assms
proof (induction queue arbitrary: r em)
  case Nil
  then show ?case by (simp add: matchSell_Nil)
next
  case (Cons lot queue)
  have nn: "0 \<le> sum_list (map remainingQuantity queue)"
    using Cons.prems(1) by (intro sum_list_nonneg) auto
  from Cons.prems nn have r: "0 < r" "remainingQuantity lot \<le> r"
    "sum_list (map remainingQuantity queue) < r - remainingQuantity lot"
    by auto
  from Cons.prems(1) have "\<forall>lot \<in> set queue. 0 \<le> remainingQuantity lot" by simp
  from Cons.IH [OF this r(3)] r(1,2) show ?case
    by (simp add: matchSell_Cons matchStep_def Let_def diff_diff_eq)
qed

lemma leftover_if_exceeds:
  assumes "\<forall>lot \<in> set queue. 0 \<le> remainingQuantity lot"
    and "sum_list (map remainingQuantity queue) < r"
  shows "0 < fst (matchSell t r queue em)"
  using assms by (simp add: matchSell_exhaust)

lemma negative_lot_examples:
  "warned (matchTrades [mkTrade ''AAPL'' ''Buy'' (-15) 100 1 1,
                        mkTrade ''AAPL'' ''Buy'' 20 100 1 2,
                        mkTrade ''AAPL'' ''Sell'' 10 110 1 3]) = [(''AAPL-stock'', 5)]"
  "map quantity (emitted (matchTrades [mkTrade ''AAPL'' ''Buy'' (-15) 100 1 1,
                                      mkTrade ''AAPL'' ''Buy'' 20 100 1 2,
                                      mkTrade ''AAPL'' ''Sell'' 10 110 1 3])) = [-15, 20]"
  "warned (matchTrades [mkTrade ''AAPL'' ''Buy'' 20 100 1 1,
                        mkTrade ''AAPL'' ''Buy'' (-15) 100 1 2,
                        mkTrade ''AAPL'' ''Sell'' 10 110 1 3]) = []"
  "map quantity (emitted (matchTrades [mkTrade ''AAPL'' ''Buy'' 20 100 1 1,
                                      mkTrade ''AAPL'' ''Buy'' (-15) 100 1 2,
                                      mkTrade ''AAPL'' ''Sell'' 10 110 1 3])) = [10]"
  by (simp_all add: run_simps)

lemma matchSell_nonneg:
  "\<forall>lot \<in> set q. 0 \<le> remainingQuantity lot \<Longrightarrow>
     \<forall>lot \<in> set (fst (snd (matchSell t r q em))). 0 \<le> remainingQuantity lot"
proof (induction t r q em rule: matchSell.induct)
  case (1 t r q em)
  show ?case
  proof (cases "0 < r \<and> q \<noteq> []")
    case True
    obtain c r' q' where st: "matchStep t r (hd q) (tl q) = (c, r', q')"
      by (cases "matchStep t r (hd q) (tl q)") auto
    from True obtain p rest where q: "q = p # rest" by (cases q) auto
    from st "1.prems" have "\<forall>lot \<in> set q'. 0 \<le> remainingQuantity lot"
      unfolding q by (auto simp: matchStep_def Let_def split: if_splits)
    from "1.IH" [OF True st [symmetric] refl this] True st show ?thesis
      by (subst matchSell.simps) simp
  next
    case False
    with "1.prems" show ?thesis by (subst matchSell.simps) auto
  qed
qed

lemma processTrade_nonneg:
  assumes "\<And>k. \<forall>lot \<in> set (queueOf m k). 0 \<le> remainingQuantity lot"
    and "Transaction t = ''Buy'' \<longrightarrow> 0 \<le> Quantity t"
  shows "\<forall>lot \<in> set (queueOf (processTrade m t) k). 0 \<le> remainingQuantity lot"
proof -
  have "\<forall>lot \<in> set (fst (snd (matchSell t (Quantity t) (queueOf m (tradeKey t)) (emitted m)))).
          0 \<le> remainingQuantity lot"
    by (rule matchSell_nonneg) (rule assms(1))
  with assms show ?thesis
    unfolding processTrade_queueOf Let_def
    by (auto split: prod.splits)
qed

lemma foldl_processTrade_nonneg:
  assumes "\<And>k. \<forall>lot \<in> set (queueOf m k). 0 \<le> remainingQuantity lot"
    and "\<forall>t \<in> set ts. Transaction t = ''Buy'' \<longrightarrow> 0 \<le> Quantity t"
  shows "\<forall>lot \<in> set (queueOf (foldl processTrade m ts) k). 0 \<le> remainingQuantity lot"
  using assms
proof (induction ts arbitrary: m)
  case Nil
  then show ?case by simp
next
  case (Cons t ts)
  have "\<And>k. \<forall>lot \<in> set (queueOf (processTrade m t) k). 0 \<le> remainingQuantity lot"
    using Cons.prems by (intro processTrade_nonneg) auto
  from Cons.IH [OF this] Cons.prems(2) show ?case by simp
qed

lemma matchTrades_nonneg:
  assumes "\<forall>t \<in> set ts. Transaction t = ''Buy'' \<longrightarrow> 0 \<le> Quantity t"
  shows "\<forall>lot \<in> set (queueOf (matchTrades ts) k). 0 \<le> remainingQuantity lot"
  unfolding matchTrades_def
  by (rule foldl_processTrade_nonneg [OF _ assms]) (simp add: queueOf_def emptyMatcher_def)

section \<open>The divisors of the commission terms\<close>

text \<open>
  The commission terms divide by the Sell's \<open>Quantity\<close> and, on a partial close, by
  the lot's \<open>Quantity\<close>. Neither is zero when the loop body runs: the loop starts
  with the Sell's \<open>Quantity\<close> as the quantity to sell and does nothing unless it is
  positive; and a lot never has more left than its \<open>Quantity\<close>, so on a partial close
  the lot's \<open>Quantity\<close> exceeds a positive quantity to sell.
\<close>

lemma no_match_without_quantity:
  "Quantity t \<le> 0 \<Longrightarrow> matchSell t (Quantity t) q em = (Quantity t, q, em)"
  by (rule matchSell_done)

lemma matchSell_bounded:
  "\<forall>lot \<in> set q. remainingQuantity lot \<le> Quantity lot \<Longrightarrow>
     \<forall>lot \<in> set (fst (snd (matchSell t r q em))). remainingQuantity lot \<le> Quantity lot"
proof (induction t r q em rule: matchSell.induct)
  case (1 t r q em)
  show ?case
  proof (cases "0 < r \<and> q \<noteq> []")
    case True
    obtain c r' q' where st: "matchStep t r (hd q) (tl q) = (c, r', q')"
      by (cases "matchStep t r (hd q) (tl q)") auto
    from True obtain p rest where q: "q = p # rest" by (cases q) auto
    from st "1.prems" True have "\<forall>lot \<in> set q'. remainingQuantity lot \<le> Quantity lot"
      unfolding q by (auto simp: matchStep_def Let_def split: if_splits)
    from "1.IH" [OF True st [symmetric] refl this] True st show ?thesis
      by (subst matchSell.simps) simp
  next
    case False
    with "1.prems" show ?thesis by (subst matchSell.simps) auto
  qed
qed

lemma processTrade_bounded:
  assumes "\<And>k. \<forall>lot \<in> set (queueOf m k). remainingQuantity lot \<le> Quantity lot"
  shows "\<forall>lot \<in> set (queueOf (processTrade m t) k). remainingQuantity lot \<le> Quantity lot"
proof -
  have "\<forall>lot \<in> set (fst (snd (matchSell t (Quantity t) (queueOf m (tradeKey t)) (emitted m)))).
          remainingQuantity lot \<le> Quantity lot"
    by (rule matchSell_bounded) (rule assms)
  with assms show ?thesis
    unfolding processTrade_queueOf Let_def
    by (auto split: prod.splits)
qed

lemma foldl_processTrade_bounded:
  assumes "\<And>k. \<forall>lot \<in> set (queueOf m k). remainingQuantity lot \<le> Quantity lot"
  shows "\<forall>lot \<in> set (queueOf (foldl processTrade m ts) k). remainingQuantity lot \<le> Quantity lot"
  using assms
proof (induction ts arbitrary: m)
  case Nil
  then show ?case by simp
next
  case (Cons t ts)
  have "\<And>k. \<forall>lot \<in> set (queueOf (processTrade m t) k). remainingQuantity lot \<le> Quantity lot"
    using Cons.prems by (intro processTrade_bounded) auto
  from Cons.IH [OF this] show ?case by simp
qed

lemma matchTrades_bounded:
  "\<forall>lot \<in> set (queueOf (matchTrades ts) k). remainingQuantity lot \<le> Quantity lot"
  unfolding matchTrades_def
  by (rule foldl_processTrade_bounded) (simp add: queueOf_def emptyMatcher_def)

lemma partial_close_divisor:
  assumes "0 < remainingQty" and "remainingQuantity lot \<le> Quantity lot"
    and "\<not> remainingQuantity lot \<le> remainingQty"
  shows "0 < Quantity lot"
  using assms by simp

section \<open>What the matcher mutates\<close>

lemma matchSellH_frame:
  assumes "take n h = h0" and "\<forall>a \<in> set queue. n \<le> a"
    and "matchSellH t r queue h em = (r', queue', h', em')"
  shows "take n h' = h0 \<and> (\<forall>a \<in> set queue'. n \<le> a)"
  using assms
proof (induction t r queue h em rule: matchSellH.induct)
  case (1 t r queue h em)
  show ?case
  proof (cases "0 < r \<and> queue \<noteq> []")
    case False
    with "1.prems" show ?thesis by (subst (asm) matchSellH.simps) auto
  next
    case True
    then obtain a rest where q: "queue = a # rest" by (cases queue) auto
    show ?thesis
    proof (cases "lookup h (hd queue)")
      case None
      with True "1.prems" show ?thesis by (subst (asm) matchSellH.simps) auto
    next
      case (Some obj)
      show ?thesis
      proof (cases obj)
        case (TradeObj x)
        with Some True "1.prems" show ?thesis by (subst (asm) matchSellH.simps) auto
      next
        case (PositionObj p)
        show ?thesis
        proof (cases "remainingQuantity p \<le> r")
          case full: True
          from "1.prems"(3) True Some PositionObj full
          have run: "matchSellH t (r - remainingQuantity p) (tl queue) h
                  (em @ [mkClosed t p (remainingQuantity p)
                           (closeAmount t (remainingQuantity p)
                              - openAmountFull p (remainingQuantity p))])
                 = (r', queue', h', em')"
            by (subst (asm) matchSellH.simps) (simp add: Let_def)
          from "1.prems"(2) have "\<forall>a \<in> set (tl queue). n \<le> a" unfolding q by simp
          from "1.IH"(1) [OF True Some PositionObj full refl "1.prems"(1) this run]
          show ?thesis .
        next
          case part: False
          let ?h = "h[hd queue := PositionObj (p\<lparr>remainingQuantity := remainingQuantity p - r\<rparr>)]"
          from "1.prems"(3) True Some PositionObj part
          have run: "matchSellH t 0 queue ?h
                  (em @ [mkClosed t p r (closeAmount t r - openAmountPartial p r)])
                 = (r', queue', h', em')"
            by (subst (asm) matchSellH.simps) (simp add: Let_def)
          from "1.prems"(2) have "n \<le> hd queue" unfolding q by simp
          with "1.prems"(1) have "take n ?h = h0" by simp
          from "1.IH"(2) [OF True Some PositionObj part refl this "1.prems"(2) run]
          show ?thesis .
        qed
      qed
    qed
  qed
qed

lemma take_eq_length: "take (length ys) xs = ys \<Longrightarrow> length ys \<le> length xs"
proof -
  assume "take (length ys) xs = ys"
  then have "length (take (length ys) xs) = length ys" by simp
  then show ?thesis by simp
qed

lemma processTradeH_frame:
  assumes "frameInv h0 m"
  shows "frameInv h0 (processTradeH m a)"
proof (cases "lookup (store m) a")
  case None
  with assms show ?thesis by (simp add: processTradeH_def)
next
  case (Some obj)
  let ?t = "tradeOf obj"
  let ?q = "case positionRefs m (tradeKey ?t) of None \<Rightarrow> [] | Some q \<Rightarrow> q"
  from assms have tk: "take (length h0) (store m) = h0"
    and refs: "\<And>key q. positionRefs m key = Some q \<Longrightarrow> \<forall>a \<in> set q. length h0 \<le> a"
    by (auto simp: frameInv_def)
  have len: "length h0 \<le> length (store m)"
    using tk by (rule take_eq_length)
  have q: "\<forall>a \<in> set ?q. length h0 \<le> a"
  proof (cases "positionRefs m (tradeKey ?t)")
    case None
    then show ?thesis by simp
  next
    case (Some q0)
    with refs [OF Some] show ?thesis by simp
  qed
  obtain r' q' h' em' where
    run: "matchSellH ?t (Quantity ?t) ?q (store m) (emittedH m) = (r', q', h', em')"
    by (cases "matchSellH ?t (Quantity ?t) ?q (store m) (emittedH m)") auto
  from matchSellH_frame [OF tk q run]
  have f: "take (length h0) h' = h0" "\<forall>a \<in> set q'. length h0 \<le> a" by auto
  show ?thesis
    unfolding frameInv_def processTradeH_def Some Let_def
    using tk len q f refs by (auto simp: run)
qed

lemma foldl_processTradeH_frame:
  "frameInv h0 m \<Longrightarrow> frameInv h0 (foldl processTradeH m refs)"
  by (induction refs arbitrary: m) (auto intro: processTradeH_frame)

text \<open>
  C8. After the matching pass the store still holds every object it held before,
  unchanged: in particular every input trade, field by field. The pass only appends
  objects of its own and writes to those.
\<close>

theorem C8_trades_not_mutated:
  "length h \<le> length (store (matchTradesH e h tradeData))
   \<and> (\<forall>a \<in> set tradeData. a < length h \<longrightarrow>
         store (matchTradesH e h tradeData) ! a = h ! a)"
proof -
  have "frameInv h \<lparr>store = h, positionRefs = Map.empty, emittedH = [], warnedH = []\<rparr>"
    by (simp add: frameInv_def)
  then have "frameInv h (matchTradesH e h tradeData)"
    unfolding matchTradesH_def by (rule foldl_processTradeH_frame)
  then have tk: "take (length h) (store (matchTradesH e h tradeData)) = h"
    by (simp add: frameInv_def)
  then have "length h \<le> length (store (matchTradesH e h tradeData))"
    by (rule take_eq_length)
  moreover have "store (matchTradesH e h tradeData) ! a = h ! a" if "a < length h" for a
    using that tk by (metis nth_take)
  ultimately show ?thesis by blast
qed

lemma sampleStore_run:
  "store (matchTradesH sampleEnv sampleStore [0, 1]) =
     sampleStore @
       [PositionObj ((newPosition (mkTrade ''AAPL'' ''Buy'' 10 100 2 1))
                       \<lparr>remainingQuantity := 6\<rparr>)]"
  by (simp add: matchTradesH_def sortRefs_def sortBy_def isValid_def timeValue_def
      sampleStore_def lookup_def tradeOf_def
      processTradeH_def tradeKey_def callPutOrStock_def mkTrade_def Let_def
      matchSellH.simps)

text \<open>
  On the sample store the two trades stay as they were; the pass appends the lot of the
  Buy, and the Sell of 4 leaves 6 in it.
\<close>

theorem C8_trades_not_mutated_witness:
  "store (matchTradesH sampleEnv sampleStore [0, 1]) ! 0 = TradeObj (mkTrade ''AAPL'' ''Sell'' 4 110 1 2)
   \<and> store (matchTradesH sampleEnv sampleStore [0, 1]) ! 1 = TradeObj (mkTrade ''AAPL'' ''Buy'' 10 100 2 1)
   \<and> store (matchTradesH sampleEnv sampleStore [0, 1]) ! 2 =
       PositionObj ((newPosition (mkTrade ''AAPL'' ''Buy'' 10 100 2 1))
                      \<lparr>remainingQuantity := 6\<rparr>)"
proof -
  have "(0::nat) \<in> set [0, 1]" "(1::nat) \<in> set [0, 1]"
    "0 < length sampleStore" "1 < length sampleStore"
    by (simp_all add: sampleStore_def)
  with C8_trades_not_mutated [of sampleStore sampleEnv "[0, 1]"]
  have a: "store (matchTradesH sampleEnv sampleStore [0, 1]) ! 0 = sampleStore ! 0"
    and b: "store (matchTradesH sampleEnv sampleStore [0, 1]) ! 1 = sampleStore ! 1"
    by blast+
  have s0: "sampleStore ! 0 = TradeObj (mkTrade ''AAPL'' ''Sell'' 4 110 1 2)"
    and s1: "sampleStore ! 1 = TradeObj (mkTrade ''AAPL'' ''Buy'' 10 100 2 1)"
    by (simp_all add: sampleStore_def)
  have c: "store (matchTradesH sampleEnv sampleStore [0, 1]) ! 2 =
       PositionObj ((newPosition (mkTrade ''AAPL'' ''Buy'' 10 100 2 1))
                      \<lparr>remainingQuantity := 6\<rparr>)"
    by (subst sampleStore_run) (simp add: sampleStore_def)
  show ?thesis
  proof (intro conjI)
    show "store (matchTradesH sampleEnv sampleStore [0, 1]) ! 0 =
            TradeObj (mkTrade ''AAPL'' ''Sell'' 4 110 1 2)"
      using a s0 by (rule trans)
    show "store (matchTradesH sampleEnv sampleStore [0, 1]) ! 1 =
            TradeObj (mkTrade ''AAPL'' ''Buy'' 10 100 2 1)"
      using b s1 by (rule trans)
    show "store (matchTradesH sampleEnv sampleStore [0, 1]) ! 2 =
       PositionObj ((newPosition (mkTrade ''AAPL'' ''Buy'' 10 100 2 1))
                      \<lparr>remainingQuantity := 6\<rparr>)"
      by (rule c)
  qed
qed

section \<open>The matcher on the store computes what the matcher on values computes\<close>

lemma lotAt_Some: "lotAt h a = Some p \<longleftrightarrow> a < length h \<and> h ! a = PositionObj p"
  by (auto simp: lotAt_def lookup_def split: jsObject.splits)

lemma lotAt_update:
  "a < length h \<Longrightarrow> lotAt (h[a := PositionObj p]) b = (if b = a then Some p else lotAt h b)"
  by (auto simp: lotAt_def lookup_def)

lemma lotAt_same:
  "length h' = length h \<Longrightarrow> h' ! a = h ! a \<Longrightarrow> lotAt h' a = lotAt h a"
  by (simp add: lotAt_def lookup_def)

lemma matchSellH_refines:
  assumes "distinct qr" and "map (lotAt h) qr = map Some q"
  shows "\<exists>qr' h'.
           matchSellH t r qr h em =
             (fst (matchSell t r q em), qr', h', snd (snd (matchSell t r q em)))
         \<and> map (lotAt h') qr' = map Some (fst (snd (matchSell t r q em)))
         \<and> set qr' \<subseteq> set qr \<and> distinct qr' \<and> length h' = length h
         \<and> (\<forall>b. b \<notin> set qr \<longrightarrow> h' ! b = h ! b)"
  using assms
proof (induction t r qr h em arbitrary: q rule: matchSellH.induct)
  case (1 t r qr h em)
  show ?case
  proof (cases "0 < r \<and> qr \<noteq> []")
    case False
    with "1.prems" have "\<not> (0 < r \<and> q \<noteq> [])" by auto
    then have "matchSell t r q em = (r, q, em)"
      by (subst matchSell.simps) auto
    with False "1.prems" show ?thesis
      by (subst matchSellH.simps) auto
  next
    case True
    then obtain a rest where qr: "qr = a # rest" by (cases qr) auto
    with "1.prems"(2) obtain p qrest where q: "q = p # qrest"
      and pa: "lotAt h a = Some p" and rest: "map (lotAt h) rest = map Some qrest"
      by (cases q) auto
    from pa have lk: "lookup h (hd qr) = Some (PositionObj p)" and al: "a < length h"
      by (auto simp: lotAt_Some lookup_def qr)
    from "1.prems"(1) have dr: "distinct rest" "a \<notin> set rest" by (auto simp: qr)
    show ?thesis
    proof (cases "remainingQuantity p \<le> r")
      case full: True
      let ?c = "mkClosed t p (remainingQuantity p)
                  (closeAmount t (remainingQuantity p) - openAmountFull p (remainingQuantity p))"
      have rest': "map (lotAt h) (tl qr) = map Some qrest" using rest by (simp add: qr)
      have dr': "distinct (tl qr)" using dr by (simp add: qr)
      from "1.IH"(1) [OF True lk refl full refl dr' rest']
      obtain qr' h' where
        r: "matchSellH t (r - remainingQuantity p) (tl qr) h (em @ [?c]) =
              (fst (matchSell t (r - remainingQuantity p) qrest (em @ [?c])), qr', h',
               snd (snd (matchSell t (r - remainingQuantity p) qrest (em @ [?c]))))"
        and p: "map (lotAt h') qr' =
              map Some (fst (snd (matchSell t (r - remainingQuantity p) qrest (em @ [?c]))))"
          "set qr' \<subseteq> set (tl qr)" "distinct qr'" "length h' = length h"
          "\<forall>b. b \<notin> set (tl qr) \<longrightarrow> h' ! b = h ! b"
        by blast
      have lhs: "matchSellH t r qr h em =
          matchSellH t (r - remainingQuantity p) (tl qr) h (em @ [?c])"
        using True lk full by (subst matchSellH.simps) (simp add: Let_def)
      have rhs: "matchSell t r q em = matchSell t (r - remainingQuantity p) qrest (em @ [?c])"
        using True full by (simp add: q matchSell_Cons matchStep_def Let_def)
      from r p show ?thesis
        unfolding lhs rhs by (auto simp: qr)
    next
      case part: False
      let ?c = "mkClosed t p r (closeAmount t r - openAmountPartial p r)"
      let ?p = "p\<lparr>remainingQuantity := remainingQuantity p - r\<rparr>"
      let ?h = "h[hd qr := PositionObj ?p]"
      have "map (lotAt ?h) rest = map (lotAt h) rest"
        using dr(2) al by (intro map_cong) (auto simp: qr lotAt_update)
      then have m2: "map (lotAt ?h) qr = map Some (?p # qrest)"
        using rest al by (simp add: qr lotAt_update)
      from "1.IH"(2) [OF True lk refl part refl "1.prems"(1) m2]
      obtain qr' h' where
        r: "matchSellH t 0 qr ?h (em @ [?c]) =
              (fst (matchSell t 0 (?p # qrest) (em @ [?c])), qr', h',
               snd (snd (matchSell t 0 (?p # qrest) (em @ [?c]))))"
        and p: "map (lotAt h') qr' =
              map Some (fst (snd (matchSell t 0 (?p # qrest) (em @ [?c]))))"
          "set qr' \<subseteq> set qr" "distinct qr'" "length h' = length ?h"
          "\<forall>b. b \<notin> set qr \<longrightarrow> h' ! b = ?h ! b"
        by blast
      have lhs: "matchSellH t r qr h em = matchSellH t 0 qr ?h (em @ [?c])"
        using True lk part by (subst matchSellH.simps) (simp add: Let_def)
      have rhs: "matchSell t r q em = matchSell t 0 (?p # qrest) (em @ [?c])"
        using True part by (simp add: q matchSell_Cons matchStep_def Let_def)
      from r p show ?thesis
        unfolding lhs rhs by (auto simp: qr)
    qed
  qed
qed

lemma refsOf_update [simp]:
  "refsOf (m\<lparr>positionRefs := (positionRefs m')(key \<mapsto> q)\<rparr>) k =
     (if k = key then q else refsOf m' k)"
  "refsOf (m\<lparr>store := h\<rparr>) k = refsOf m k"
  "refsOf (m\<lparr>emittedH := em\<rparr>) k = refsOf m k"
  "refsOf (m\<lparr>warnedH := w\<rparr>) k = refsOf m k"
  by (simp_all add: refsOf_def)

lemma refines_in_range:
  assumes "refines mH m" and "b \<in> set (refsOf mH k)"
  shows "b < length (store mH)"
proof -
  from assms(1) have "map (lotAt (store mH)) (refsOf mH k) = map Some (queueOf m k)"
    by (simp add: refines_def)
  then have "lotAt (store mH) b \<in> set (map Some (queueOf m k))"
    using assms(2) by (metis image_eqI set_map)
  then show ?thesis by (auto simp: lotAt_Some)
qed

lemma lotAt_append:
  "lotAt (h @ [obj]) b =
     (if b < length h then lotAt h b
      else if b = length h then (case obj of PositionObj p \<Rightarrow> Some p | _ \<Rightarrow> None)
      else None)"
  by (auto simp: lotAt_def lookup_def nth_append split: jsObject.splits)

lemma processTradeH_refines:
  assumes rf: "refines mH m" and lk: "lookup (store mH) a = Some (TradeObj t)"
  shows "refines (processTradeH mH a) (processTrade m t)"
proof -
  let ?key = "tradeKey t"
  let ?qr = "refsOf mH ?key"
  let ?q = "queueOf m ?key"
  let ?h = "store mH"
  from rf have em: "emittedH mH = emitted m" and wn: "warnedH mH = warned m"
    and lots: "\<And>k. map (lotAt ?h) (refsOf mH k) = map Some (queueOf m k)"
    and dist: "\<And>k. distinct (refsOf mH k)"
    and disj: "\<And>k k'. k \<noteq> k' \<Longrightarrow> set (refsOf mH k) \<inter> set (refsOf mH k') = {}"
    by (auto simp: refines_def)
  have range: "\<And>k b. b \<in> set (refsOf mH k) \<Longrightarrow> b < length ?h"
    by (rule refines_in_range [OF rf])
  have pH: "processTradeH mH a =
      (if Transaction t = ''Buy'' then
         mH\<lparr>store := ?h @ [PositionObj (newPosition t)],
            positionRefs := (positionRefs mH)(?key \<mapsto> ?qr @ [length ?h])\<rparr>
       else if Transaction t = ''Sell'' then
         (case matchSellH t (Quantity t) ?qr ?h (emittedH mH) of
            (remainingQty, queue', h', em') \<Rightarrow>
              mH\<lparr>store := h', positionRefs := (positionRefs mH)(?key \<mapsto> queue'),
                 emittedH := em',
                 warnedH := (if remainingQty > 0 then warnedH mH @ [(?key, remainingQty)]
                             else warnedH mH)\<rparr>)
       else mH\<lparr>positionRefs := (positionRefs mH)(?key \<mapsto> ?qr)\<rparr>)"
    by (simp add: processTradeH_def lk tradeOf_def refsOf_def Let_def)
  show ?thesis
  proof (cases "Transaction t = ''Buy''")
    case True
    have new: "length ?h \<notin> set (refsOf mH k)" for k
      using range [of "length ?h" k] by auto
    have old: "map (lotAt (?h @ [PositionObj (newPosition t)])) (refsOf mH k)
                 = map Some (queueOf m k)" for k
    proof -
      have "map (lotAt (?h @ [PositionObj (newPosition t)])) (refsOf mH k)
              = map (lotAt ?h) (refsOf mH k)"
        by (intro map_cong) (auto simp: lotAt_append dest: range)
      then show ?thesis by (simp add: lots)
    qed
    show ?thesis
      unfolding refines_def pH processTrade_queueOf Let_def
      using True em wn old dist disj new
      by (auto simp: lotAt_append)
  next
    case notBuy: False
    show ?thesis
    proof (cases "Transaction t = ''Sell''")
      case True
      obtain r' q' e' where ms: "matchSell t (Quantity t) ?q (emitted m) = (r', q', e')"
        by (cases "matchSell t (Quantity t) ?q (emitted m)") auto
      from matchSellH_refines [OF dist [of ?key] lots [of ?key], of t "Quantity t" "emitted m"]
      obtain qr' h' where
        run: "matchSellH t (Quantity t) ?qr ?h (emitted m) = (r', qr', h', e')"
        and p: "map (lotAt h') qr' = map Some q'"
          "set qr' \<subseteq> set ?qr" "distinct qr'" "length h' = length ?h"
          "\<forall>b. b \<notin> set ?qr \<longrightarrow> h' ! b = ?h ! b"
        unfolding ms by auto
      have other: "map (lotAt h') (refsOf mH k) = map Some (queueOf m k)" if "k \<noteq> ?key" for k
      proof -
        have "map (lotAt h') (refsOf mH k) = map (lotAt ?h) (refsOf mH k)"
        proof (intro map_cong refl lotAt_same p(4))
          fix b assume "b \<in> set (refsOf mH k)"
          with disj [OF that] have "b \<notin> set ?qr" by auto
          with p(5) show "h' ! b = ?h ! b" by simp
        qed
        then show ?thesis by (simp add: lots)
      qed
      have disj': "set (refsOf mH k) \<inter> set qr' = {}" "set qr' \<inter> set (refsOf mH k) = {}"
        if "k \<noteq> ?key" for k
        using disj [OF that] p(2) by auto
      show ?thesis
        unfolding refines_def pH processTrade_queueOf Let_def
        using True notBuy wn other dist disj disj' p(1,3)
        by (auto simp: run ms em)
    next
      case False
      show ?thesis
        unfolding refines_def pH processTrade_queueOf Let_def
        using False notBuy em wn lots dist disj
        by auto
    qed
  qed
qed

lemma frameInv_lookup:
  assumes "frameInv h mH" and "lookup h a = Some obj"
  shows "lookup (store mH) a = Some obj"
proof -
  from assms(1) have tk: "take (length h) (store mH) = h" by (simp add: frameInv_def)
  from assms(2) have a: "a < length h" "h ! a = obj"
    by (auto simp: lookup_def split: if_splits)
  from tk have "length h \<le> length (store mH)" by (rule take_eq_length)
  moreover from tk a(1) have "store mH ! a = h ! a" by (metis nth_take)
  ultimately show ?thesis using a by (simp add: lookup_def)
qed

lemma foldl_refines:
  assumes "refines mH m" and "frameInv h mH"
    and "\<forall>a \<in> set refs. \<exists>t. lookup h a = Some (TradeObj t)"
  shows "refines (foldl processTradeH mH refs)
           (foldl processTrade m (map (\<lambda>a. tradeOf (h ! a)) refs))"
  using assms
proof (induction refs arbitrary: mH m)
  case Nil
  then show ?case by simp
next
  case (Cons a refs)
  from Cons.prems(3) obtain t where t: "lookup h a = Some (TradeObj t)" by auto
  then have ta: "tradeOf (h ! a) = t"
    by (auto simp: lookup_def tradeOf_def split: if_splits)
  from frameInv_lookup [OF Cons.prems(2) t]
  have "refines (processTradeH mH a) (processTrade m t)"
    by (rule processTradeH_refines [OF Cons.prems(1)])
  moreover have "frameInv h (processTradeH mH a)"
    by (rule processTradeH_frame [OF Cons.prems(2)])
  ultimately show ?case
    using Cons.IH [of "processTradeH mH a" "processTrade m t"] Cons.prems(3)
    by (simp add: ta)
qed

lemma map_insort_key:
  assumes "\<forall>a \<in> set (x # ys). g a = f (m a)"
  shows "map m (insort_key g x ys) = insort_key f (m x) (map m ys)"
  using assms by (induction ys) auto

lemma map_sort_key:
  assumes "\<forall>a \<in> set xs. g a = f (m a)"
  shows "map m (sort_key g xs) = sort_key f (map m xs)"
  using assms
proof (induction xs)
  case Nil
  then show ?case by simp
next
  case (Cons x xs)
  then have "map m (insort_key g x (sort_key g xs)) = insort_key f (m x) (map m (sort_key g xs))"
    by (intro map_insort_key) auto
  with Cons show ?case by simp
qed

lemma map_sortBy:
  assumes "\<forall>a \<in> set xs. g a = f (m a)"
  shows "map m (sortBy e g xs) = sortBy e f (map m xs)"
proof -
  have crit: "map f (map m xs) = map g xs"
    using assms by simp
  have valid: "list_all (\<lambda>x. isValid (f x)) (map m xs) = list_all (\<lambda>x. isValid (g x)) xs"
    using assms by (auto simp: list_all_iff)
  show ?thesis
  proof (cases "list_all (\<lambda>x. isValid (g x)) xs")
    case True
    have "map m (sort_key (\<lambda>x. timeValue (g x)) xs) =
            sort_key (\<lambda>x. timeValue (f x)) (map m xs)"
      using assms by (intro map_sort_key) simp
    with True show ?thesis
      by (simp only: sortBy_def valid if_True)
  next
    case False
    have "map m (map (\<lambda>i. xs ! i) [i \<leftarrow> engineOrder e (map g xs). i < length xs]) =
            map (\<lambda>i. map m xs ! i) [i \<leftarrow> engineOrder e (map g xs). i < length xs]"
      by simp
    with False show ?thesis
      by (simp only: sortBy_def valid if_False crit length_map)
  qed
qed

lemma set_sortBy: "set (sortBy e f xs) \<subseteq> set xs"
  by (auto simp: sortBy_def)

lemma matchTradesH_refines:
  assumes "\<forall>a \<in> set tradeData. \<exists>t. lookup h a = Some (TradeObj t)"
  shows "emittedH (matchTradesH e h tradeData) =
           emitted (matchTrades (sortByActivityDate e (map (\<lambda>a. tradeOf (h ! a)) tradeData)))
       \<and> warnedH (matchTradesH e h tradeData) =
           warned (matchTrades (sortByActivityDate e (map (\<lambda>a. tradeOf (h ! a)) tradeData)))"
proof -
  let ?init = "\<lparr>store = h, positionRefs = Map.empty, emittedH = [], warnedH = []\<rparr>"
  have r0: "refines ?init emptyMatcher"
    by (simp add: refines_def emptyMatcher_def refsOf_def queueOf_def)
  have f0: "frameInv h ?init" by (simp add: frameInv_def)
  have "set (sortRefs e h tradeData) \<subseteq> set tradeData"
    unfolding sortRefs_def by (rule set_sortBy)
  with assms have wf: "\<forall>a \<in> set (sortRefs e h tradeData). \<exists>t. lookup h a = Some (TradeObj t)"
    by (meson subsetD)
  have "\<forall>a \<in> set tradeData.
          (case lookup h a of Some obj \<Rightarrow> ActivityDate (tradeOf obj) | None \<Rightarrow> InvalidDate)
            = ActivityDate (tradeOf (h ! a))"
    using assms by (auto simp: lookup_def split: if_splits)
  then have "map (\<lambda>a. tradeOf (h ! a)) (sortRefs e h tradeData) =
          sortByActivityDate e (map (\<lambda>a. tradeOf (h ! a)) tradeData)"
    unfolding sortRefs_def sortByActivityDate_def by (rule map_sortBy)
  with foldl_refines [OF r0 f0 wf] show ?thesis
    by (simp add: refines_def matchTradesH_def matchTrades_def)
qed

end
